theory Spec2Isabelle
  imports Main "HOL-Library.Multiset"
begin

section \<open>Data model\<close>

text \<open>
  The \<^verbatim>\<open>Task\<close> table of \<^verbatim>\<open>src/app.py\<close> (lines 92--105). A row carries
  the scalar columns of the model class; the primary key \<^verbatim>\<open>id\<close> is the field
  \<open>task_id\<close> (\<open>id\<close> is HOL's identity function). Python's integers are
  unbounded, hence \<open>int\<close>. The nullable column \<^verbatim>\<open>dependency_id\<close> is an
  \<open>int option\<close>. The many-to-many association tables (groups, assignees) play no
  part in scheduling and are left out.

  A \<^verbatim>\<open>db.Date\<close> is a \<^verbatim>\<open>datetime.date\<close>, represented by its day number counted
  from 1 January 2024: day 0 is 2024-01-01, whose proleptic Gregorian ordinal is
  738886. Comparing dates is comparing day numbers. The calendar of
  \<^verbatim>\<open>datetime.date\<close> runs from 0001-01-01 (ordinal 1) to 9999-12-31 (ordinal
  3652059), that is, from day \<open>date_min\<close> to day \<open>date_max\<close>; every date a row
  holds lies in that range.
\<close>

type_synonym date = int

definition date_min :: date where
  "date_min = 1 - 738886"

definition date_max :: date where
  "date_max = 3652059 - 738886"

record task =
  task_id :: int
  project_id :: int
  name :: string
  start_date :: date
  duration_days :: int
  contractor_type :: string
  priority :: string
  dependency_id :: "int option"
  is_completed :: bool
  comments :: string

text \<open>
  The table is the list of its rows, in the order in which an unordered
  \<^verbatim>\<open>SELECT\<close> yields them. The session's identity map makes every lookup return
  the one live object per primary key, so a field assignment on a loaded task is
  seen by every later read: the model writes the row back at once.
\<close>

type_synonym db = "task list"

definition get_task :: "db \<Rightarrow> int \<Rightarrow> task option" where
  \<comment> \<open>\<^verbatim>\<open>db.session.get(Task, i)\<close>\<close>
  "get_task tasks i = find (\<lambda>t. task_id t = i) tasks"

definition followers_of :: "db \<Rightarrow> int \<Rightarrow> task list" where
  \<comment> \<open>\<^verbatim>\<open>Task.query.filter_by(dependency_id=i).all()\<close>\<close>
  "followers_of tasks i = filter (\<lambda>t. dependency_id t = Some i) tasks"

definition save_task :: "db \<Rightarrow> task \<Rightarrow> db" where
  \<comment> \<open>the row with the task's primary key takes the task's fields\<close>
  "save_task tasks t = map (\<lambda>r. if task_id r = task_id t then t else r) tasks"

text \<open>
  The exceptions the scheduling code can raise. \<^verbatim>\<open>timedelta(days=n)\<close> raises
  \<^verbatim>\<open>OverflowError\<close> when \<open>n\<close> has a magnitude above 999999999, and adding a
  \<^verbatim>\<open>timedelta\<close> to a \<^verbatim>\<open>date\<close> raises \<^verbatim>\<open>OverflowError\<close> when the result is
  not a date of the calendar.
\<close>

datatype error = RecursionError | OverflowError

definition timedelta_days :: "int \<Rightarrow> error + int" where
  \<comment> \<open>\<^verbatim>\<open>timedelta(days=n)\<close>\<close>
  "timedelta_days n = (if \<bar>n\<bar> \<le> 999999999 then Inr n else Inl OverflowError)"

definition date_add :: "date \<Rightarrow> int \<Rightarrow> error + date" where
  \<comment> \<open>\<^verbatim>\<open>date + timedelta\<close>, the \<^verbatim>\<open>timedelta\<close> given by its days\<close>
  "date_add s n =
     (if date_min \<le> s + n \<and> s + n \<le> date_max then Inr (s + n) else Inl OverflowError)"

section \<open>Smart scheduling logic\<close>

text \<open>
  \<^verbatim>\<open>adjust_start_date_based_on_dependency\<close> (lines 138--152). The Python
  function mutates its argument and returns the flag; the model returns the task
  after the call together with the flag. The guard \<^verbatim>\<open>if task.dependency_id:\<close>
  is Python truthiness: it fails for \<^verbatim>\<open>None\<close> and for the integer \<open>0\<close>.
  The guard \<^verbatim>\<open>if parent:\<close> fails exactly when the lookup found no row. The
  computation of \<^verbatim>\<open>parent_end_date\<close> (line 146) is the one place that can
  raise; nothing has been assigned when it does.
\<close>

definition adjust_start_date_based_on_dependency :: "db \<Rightarrow> task \<Rightarrow> error + (task \<times> bool)" where
  "adjust_start_date_based_on_dependency tasks t =
     (case dependency_id t of
        None \<Rightarrow> Inr (t, False)
      | Some d \<Rightarrow>
          if d = 0 then Inr (t, False)
          else
            (case get_task tasks d of
               None \<Rightarrow> Inr (t, False)
             | Some parent \<Rightarrow>
                 (case timedelta_days (duration_days parent) of
                    Inl e \<Rightarrow> Inl e
                  | Inr delta \<Rightarrow>
                      (case date_add (start_date parent) delta of
                         Inl e \<Rightarrow> Inl e
                       | Inr parent_end_date \<Rightarrow>
                           if start_date t < parent_end_date
                           then Inr (t\<lparr>start_date := parent_end_date\<rparr>, True)
                           else Inr (t, False)))))"

text \<open>
  \<^verbatim>\<open>cascade_updates\<close> (lines 155--164). The function calls itself once per
  moved follower and nothing in it bounds the depth, so the model carries the
  number of nested calls the interpreter still allows: a call made with none left
  is Python's \<^verbatim>\<open>RecursionError\<close>. The function catches nothing, so that error
  and an \<^verbatim>\<open>OverflowError\<close> of the Adjustment Rule unwind the whole cascade; the
  error result carries the table as the session holds it at that moment, with
  the moves made so far. The loop
  over \<^verbatim>\<open>followers\<close> is \<open>cascade_followers\<close>; the query result is fixed when
  the loop starts, while each follower is read in its current state when its turn
  comes (the list holds live objects). The walk deletes no row (lemma
  \<open>evolves_get_task_Some\<close> below), so the lookup of a listed follower finds its
  row; the \<open>None\<close> branch is there because a lookup returns an option.

  Beside the table the model returns the log of the Adjustment Rule applications
  the walk made, in order: the follower's id and the returned flag. The log is
  what "examined", "visited" and "moved" refer to in the properties below; a
  \<open>True\<close> entry is one line printed by the source.
\<close>

type_synonym event = "int \<times> bool"

type_synonym outcome = "(error \<times> db) + (db \<times> event list)"

fun cascade_updates :: "nat \<Rightarrow> db \<Rightarrow> int \<Rightarrow> outcome"
  and cascade_followers :: "nat \<Rightarrow> db \<Rightarrow> int list \<Rightarrow> outcome"
where
  "cascade_updates 0 tasks i = Inl (RecursionError, tasks)"
| "cascade_updates (Suc n) tasks i =
     (case get_task tasks i of
        None \<Rightarrow> Inr (tasks, [])
      | Some t \<Rightarrow> cascade_followers n tasks (map task_id (followers_of tasks (task_id t))))"
| "cascade_followers n tasks [] = Inr (tasks, [])"
| "cascade_followers n tasks (f # fs) =
     (case get_task tasks f of
        None \<Rightarrow> cascade_followers n tasks fs
      | Some follower \<Rightarrow>
          (case adjust_start_date_based_on_dependency tasks follower of
             Inl e \<Rightarrow> Inl (e, tasks)
           | Inr (follower', moved) \<Rightarrow>
               if moved then
                 (case cascade_updates n (save_task tasks follower') f of
                    Inl failure \<Rightarrow> Inl failure
                  | Inr (tasks', log) \<Rightarrow>
                      (case cascade_followers n tasks' fs of
                         Inl failure \<Rightarrow> Inl failure
                       | Inr (tasks'', log') \<Rightarrow> Inr (tasks'', (f, True) # log @ log')))
               else
                 (case cascade_followers n tasks fs of
                    Inl failure \<Rightarrow> Inl failure
                  | Inr (tasks'', log') \<Rightarrow> Inr (tasks'', (f, False) # log'))))"

section \<open>API endpoints\<close>

text \<open>
  The JSON body of \<^verbatim>\<open>/api/task/add\<close> and \<^verbatim>\<open>/api/task/update\<close> after decoding:
  the date already parsed, the numbers already numbers, the defaults of
  \<^verbatim>\<open>d.get\<close> already filled in. \<^verbatim>\<open>dependency_id\<close> is the decoded JSON value
  (a number or null); the handlers store it only when it is truthy.
\<close>

record task_form =
  form_task_id :: int
  form_project_id :: int
  form_task_name :: string
  form_start_date :: date
  form_duration_days :: int
  form_priority :: string
  form_dependency_id :: "int option"
  form_comments :: string

definition form_dependency :: "task_form \<Rightarrow> int option" where
  \<comment> \<open>\<^verbatim>\<open>int(d['dependency_id']) if d.get('dependency_id') else None\<close>\<close>
  "form_dependency d =
     (case form_dependency_id d of
        None \<Rightarrow> None
      | Some k \<Rightarrow> if k = 0 then None else Some k)"

definition new_task :: "int \<Rightarrow> task_form \<Rightarrow> task" where
  \<comment> \<open>the \<^verbatim>\<open>Task(...)\<close> constructor call of \<^verbatim>\<open>add_task_api\<close>, with the column defaults\<close>
  "new_task new_id d =
     \<lparr>task_id = new_id, project_id = form_project_id d, name = form_task_name d,
      start_date = form_start_date d, duration_days = form_duration_days d,
      contractor_type = ''Internal'', priority = form_priority d,
      dependency_id = form_dependency d, is_completed = False,
      comments = form_comments d\<rparr>"

text \<open>
  \<^verbatim>\<open>add_task_api\<close> (lines 206--225). \<^verbatim>\<open>db.session.add(t)\<close> puts the new task
  into the session, the Adjustment Rule runs on it, and the commit makes it
  durable; nothing else is called. The primary key is issued by the database when
  the new row is first written; it is the parameter \<open>new_id\<close>. The session
  writes a pending row before it queries, so the row is in the table when the
  rule looks up the predecessor. When the rule raises, the request ends with the
  error before the commit, and the table is the one before the request.
\<close>

definition add_task_api :: "db \<Rightarrow> int \<Rightarrow> task_form \<Rightarrow> db \<times> (error + bool)" where
  "add_task_api tasks new_id d =
     (let t = new_task new_id d;
          tasks1 = tasks @ [t]
      in (case adjust_start_date_based_on_dependency tasks1 t of
            Inl e \<Rightarrow> (tasks, Inl e)
          | Inr (t', moved) \<Rightarrow> (save_task tasks1 t', Inr True)))"

text \<open>
  \<^verbatim>\<open>update_task_api\<close> (lines 228--253). When the Adjustment Rule raises, nothing
  has been committed and the table is the one before the request. The first
  commit makes the edited and adjusted task durable; when the cascade then
  raises, the request ends with the error and the table is the one of the first
  commit: what the session held beyond it is discarded with the session.
\<close>

definition edit_task :: "task \<Rightarrow> task_form \<Rightarrow> task" where
  "edit_task t d =
     t\<lparr>name := form_task_name d, priority := form_priority d,
       start_date := form_start_date d, duration_days := form_duration_days d,
       dependency_id := form_dependency d, comments := form_comments d\<rparr>"

definition update_task_api :: "nat \<Rightarrow> db \<Rightarrow> task_form \<Rightarrow> db \<times> (error + bool)" where
  "update_task_api n tasks d =
     (case get_task tasks (form_task_id d) of
        None \<Rightarrow> (tasks, Inr False)
      | Some t \<Rightarrow>
          let t1 = edit_task t d;
              tasks1 = save_task tasks t1
          in (case adjust_start_date_based_on_dependency tasks1 t1 of
                Inl e \<Rightarrow> (tasks, Inl e)
              | Inr (t2, moved) \<Rightarrow>
                  let tasks2 = save_task tasks1 t2
                  in (case cascade_updates n tasks2 (task_id t2) of
                        Inl (e, session) \<Rightarrow> (tasks2, Inl e)
                      | Inr (tasks3, log) \<Rightarrow> (tasks3, Inr True))))"

text \<open>\<^verbatim>\<open>delete_task_api\<close> (lines 256--261).\<close>

definition delete_task_api :: "db \<Rightarrow> int \<Rightarrow> db \<times> bool" where
  "delete_task_api tasks i =
     (case get_task tasks i of
        None \<Rightarrow> (tasks, False)
      | Some t \<Rightarrow> (filter (\<lambda>r. task_id r \<noteq> task_id t) tasks, True))"

section \<open>Vocabulary of the specification\<close>

text \<open>
  Primary keys are unique, and the database issues them from 1 upwards, so no row
  has the key 0.
\<close>

definition wf_db :: "db \<Rightarrow> bool" where
  "wf_db tasks = (distinct (map task_id tasks) \<and> 0 \<notin> set (map task_id tasks))"

definition end_date :: "task \<Rightarrow> date" where
  "end_date t = start_date t + duration_days t"

text \<open>
  \<open>in_calendar p\<close>: the end date of the task can be computed, that is, line 146
  raises nothing for it as predecessor.
\<close>

definition in_calendar :: "task \<Rightarrow> bool" where
  "in_calendar p =
     (\<bar>duration_days p\<bar> \<le> 999999999 \<and> date_min \<le> end_date p \<and> end_date p \<le> date_max)"

text \<open>The \<^verbatim>\<open>dependency_id\<close> stored for an id, if the id has a row.\<close>

definition dep_of :: "db \<Rightarrow> int \<Rightarrow> int option" where
  "dep_of tasks i = (case get_task tasks i of None \<Rightarrow> None | Some t \<Rightarrow> dependency_id t)"

text \<open>
  The dependency invariant at the task with id \<open>i\<close>: when the task has a
  predecessor in the table, it does not start before the predecessor's end date.
  \<open>followers_ok tasks y\<close> says that the invariant holds at every follower of
  \<open>y\<close>.
\<close>

definition dependency_ok :: "db \<Rightarrow> int \<Rightarrow> bool" where
  "dependency_ok tasks i =
     (case get_task tasks i of
        None \<Rightarrow> True
      | Some t \<Rightarrow>
          (case dependency_id t of
             None \<Rightarrow> True
           | Some d \<Rightarrow>
               (case get_task tasks d of
                  None \<Rightarrow> True
                | Some p \<Rightarrow> end_date p \<le> start_date t)))"

definition followers_ok :: "db \<Rightarrow> int \<Rightarrow> bool" where
  "followers_ok tasks y = (\<forall>f. dep_of tasks f = Some y \<longrightarrow> dependency_ok tasks f)"

text \<open>
  \<open>reachable tasks r i\<close>: the task \<open>i\<close> is reached from \<open>r\<close> along follower
  edges, that is, \<open>i\<close> is a direct or transitive follower of \<open>r\<close>.
\<close>

inductive reachable :: "db \<Rightarrow> int \<Rightarrow> int \<Rightarrow> bool" for tasks :: db and r :: int where
  direct: "get_task tasks i = Some t \<Longrightarrow> dependency_id t = Some r \<Longrightarrow> reachable tasks r i"
| step: "reachable tasks r j \<Longrightarrow> get_task tasks i = Some t \<Longrightarrow> dependency_id t = Some j
          \<Longrightarrow> reachable tasks r i"

text \<open>
  Forest topology: from every task the chain of \<^verbatim>\<open>dependency_id\<close> references
  ends, at a task without one or at a reference to no row. \<open>rooted n tasks i\<close>
  follows the chain from \<open>i\<close> for up to \<open>n\<close> lookups; a chain that ends passes
  through each row at most once, so one lookup more than there are rows decides.
  A table with unique non-zero keys is a forest exactly when no task is reachable
  from itself (lemma \<open>forest_iff_acyclic\<close>).
\<close>

fun rooted :: "nat \<Rightarrow> db \<Rightarrow> int \<Rightarrow> bool" where
  "rooted 0 tasks i = False"
| "rooted (Suc n) tasks i =
     (case get_task tasks i of
        None \<Rightarrow> True
      | Some t \<Rightarrow> (case dependency_id t of None \<Rightarrow> True | Some d \<Rightarrow> rooted n tasks d))"

definition forest :: "db \<Rightarrow> bool" where
  "forest tasks =
     (wf_db tasks \<and> (\<forall>t \<in> set tasks. rooted (Suc (length tasks)) tasks (task_id t)))"

text \<open>
  \<open>latest_end k tasks i\<close>: the latest end date a cascade can give the task
  \<open>i\<close>, looking up to \<open>k\<close> references up its chain: a move puts a task on
  the end of its predecessor, which is at most the predecessor's latest end.
  \<open>dates_fit\<close>: every duration is one \<^verbatim>\<open>timedelta\<close> accepts, every end date
  is a date of the calendar, and so is every latest end date; then no cascade
  over the table leaves the calendar.
\<close>

fun latest_end :: "nat \<Rightarrow> db \<Rightarrow> int \<Rightarrow> date" where
  "latest_end 0 tasks i = 0"
| "latest_end (Suc k) tasks i =
     (case get_task tasks i of
        None \<Rightarrow> 0
      | Some t \<Rightarrow>
          (case dependency_id t of
             None \<Rightarrow> end_date t
           | Some d \<Rightarrow>
               (case get_task tasks d of
                  None \<Rightarrow> end_date t
                | Some p \<Rightarrow> max (start_date t) (latest_end k tasks d) + duration_days t)))"

definition dates_fit :: "db \<Rightarrow> bool" where
  "dates_fit tasks =
     (\<forall>t \<in> set tasks. \<bar>duration_days t\<bar> \<le> 999999999 \<and> date_min \<le> end_date t
        \<and> latest_end (Suc (length tasks)) tasks (task_id t) \<le> date_max)"


text \<open>
  The entry point of the specification (section 4.3), in its words: run the
  Adjustment Rule on the task itself, persist it, then run the Cascade Walker
  rooted at the task's id. \<open>apply_and_cascade\<close> is that composition for a task
  that has a row; \<open>create_and_cascade\<close> is the same for a task being created,
  whose row the create inserts.
\<close>

definition apply_and_cascade :: "nat \<Rightarrow> db \<Rightarrow> task \<Rightarrow> outcome" where
  "apply_and_cascade n tasks t =
     (case adjust_start_date_based_on_dependency tasks t of
        Inl e \<Rightarrow> Inl (e, tasks)
      | Inr (t', moved) \<Rightarrow> cascade_updates n (save_task tasks t') (task_id t'))"

definition create_and_cascade :: "nat \<Rightarrow> db \<Rightarrow> int \<Rightarrow> task_form \<Rightarrow> error + db" where
  "create_and_cascade n tasks new_id d =
     (case add_task_api tasks new_id d of
        (tasks1, Inl e) \<Rightarrow> Inl e
      | (tasks1, Inr ok) \<Rightarrow>
          (case cascade_updates n tasks1 new_id of
             Inl (e, session) \<Rightarrow> Inl e
           | Inr (tasks', log) \<Rightarrow> Inr tasks'))"

section \<open>Vocabulary of the proofs\<close>

text \<open>
  The walk changes nothing but start dates, and only forwards: \<open>advanced t t'\<close>
  relates a row to a later state of it, \<open>evolves\<close> a table to a later state of
  it, row by row.
\<close>

definition advanced :: "task \<Rightarrow> task \<Rightarrow> bool" where
  "advanced t t' = (t' = t\<lparr>start_date := start_date t'\<rparr> \<and> start_date t \<le> start_date t')"

definition evolves :: "db \<Rightarrow> db \<Rightarrow> bool" where
  "evolves tasks tasks' = list_all2 advanced tasks tasks'"

text \<open>
  The runs of \<^verbatim>\<open>cascade_updates\<close> that return, as a relation between the table
  before, the root (or the list of followers still to visit), the table after and
  the log: one rule per path through the function. Every returning call of the
  function is a derivation of the relation (lemma \<open>cascade_walk\<close>); the
  properties of returning runs are proved by induction over it.
\<close>

inductive walk :: "db \<Rightarrow> int \<Rightarrow> db \<Rightarrow> event list \<Rightarrow> bool"
  and walk_followers :: "db \<Rightarrow> int list \<Rightarrow> db \<Rightarrow> event list \<Rightarrow> bool"
where
  absent: "get_task tasks i = None \<Longrightarrow> walk tasks i tasks []"
| present: "get_task tasks i = Some t \<Longrightarrow>
     walk_followers tasks (map task_id (followers_of tasks (task_id t))) tasks' log \<Longrightarrow>
     walk tasks i tasks' log"
| finished: "walk_followers tasks [] tasks []"
| skipped: "get_task tasks f = None \<Longrightarrow> walk_followers tasks fs tasks' log \<Longrightarrow>
     walk_followers tasks (f # fs) tasks' log"
| unmoved: "get_task tasks f = Some t \<Longrightarrow>
     adjust_start_date_based_on_dependency tasks t = Inr (t', False) \<Longrightarrow>
     walk_followers tasks fs tasks' log \<Longrightarrow>
     walk_followers tasks (f # fs) tasks' ((f, False) # log)"
| moved: "get_task tasks f = Some t \<Longrightarrow>
     adjust_start_date_based_on_dependency tasks t = Inr (t', True) \<Longrightarrow>
     walk (save_task tasks t') f tasks1 log1 \<Longrightarrow>
     walk_followers tasks1 fs tasks' log2 \<Longrightarrow>
     walk_followers tasks (f # fs) tasks' ((f, True) # log1 @ log2)"

text \<open>
  \<open>moved_forward\<close>: the task starts later in the second table than in the
  first. \<open>at_most_end\<close>: the task has a predecessor and starts no later than the
  predecessor ends.
\<close>

definition moved_forward :: "db \<Rightarrow> db \<Rightarrow> int \<Rightarrow> bool" where
  "moved_forward tasks tasks' y =
     (\<exists>t t'. get_task tasks y = Some t \<and> get_task tasks' y = Some t'
        \<and> start_date t < start_date t')"

definition at_most_end :: "db \<Rightarrow> int \<Rightarrow> bool" where
  "at_most_end tasks y =
     (\<exists>t d p. get_task tasks y = Some t \<and> dependency_id t = Some d \<and> d \<noteq> 0
        \<and> get_task tasks d = Some p \<and> start_date t \<le> end_date p)"

text \<open>
  \<open>chain_below S bound tasks\<close>: every task of \<open>S\<close> has its predecessor in \<open>S\<close>,
  the bounds of a task and of its predecessor differ by the predecessor's
  duration, and every task of \<open>S\<close> starts strictly before its bound. No move of
  the Adjustment Rule can break this, which is why a walk that returns cannot have
  moved its own root.
\<close>

definition chain_below :: "int set \<Rightarrow> (int \<Rightarrow> date) \<Rightarrow> db \<Rightarrow> bool" where
  "chain_below S bound tasks =
     (\<forall>y \<in> S. \<exists>t d p. get_task tasks y = Some t \<and> dependency_id t = Some d \<and> d \<in> S
        \<and> get_task tasks d = Some p \<and> bound y = bound d + duration_days p
        \<and> start_date t < bound y)"

text \<open>
  \<open>within base tasks\<close>: the table is a later state of \<open>base\<close> in which every
  task still ends no later than its latest end date in \<open>base\<close>.
\<close>

definition within :: "db \<Rightarrow> db \<Rightarrow> bool" where
  "within base tasks =
     (evolves base tasks
      \<and> (\<forall>k i t. rooted k base i \<and> get_task tasks i = Some t \<longrightarrow>
            end_date t \<le> latest_end k base i))"

text \<open>The task \<open>k\<close> references up the chain from \<open>i\<close>, if the chain is that long.\<close>

fun ancestor :: "nat \<Rightarrow> db \<Rightarrow> int \<Rightarrow> int option" where
  "ancestor 0 tasks i = (if get_task tasks i = None then None else Some i)"
| "ancestor (Suc k) tasks i =
     (case dep_of tasks i of None \<Rightarrow> None | Some d \<Rightarrow> ancestor k tasks d)"

section \<open>Example tables\<close>

definition mk_task :: "int \<Rightarrow> date \<Rightarrow> int \<Rightarrow> int option \<Rightarrow> task" where
  "mk_task i s n dep =
     \<lparr>task_id = i, project_id = 1, name = ''task'', start_date = s, duration_days = n,
      contractor_type = ''Internal'', priority = ''Medium'', dependency_id = dep,
      is_completed = False, comments = ''''\<rparr>"

text \<open>Two tasks that depend on each other (scenario E of the specification).\<close>

definition cycle_db :: "date \<Rightarrow> int \<Rightarrow> date \<Rightarrow> int \<Rightarrow> db" where
  "cycle_db sa da sb db = [mk_task 1 sa da (Some 2), mk_task 2 sb db (Some 1)]"

text \<open>
  A chain 1, 2, 3 (each depends on the one before) and a task 4 on its own:
  before a cascade from task 1 (\<open>chain_db\<close>), after it (\<open>settled_db\<close>), and
  with task 1 lengthened to nine days (\<open>edited_db\<close>, scenario C).
\<close>

definition chain_db :: db where
  "chain_db = [mk_task 1 0 5 None, mk_task 2 3 2 (Some 1), mk_task 3 4 1 (Some 2),
               mk_task 4 0 1 None]"

definition settled_db :: db where
  "settled_db = [mk_task 1 0 5 None, mk_task 2 5 2 (Some 1), mk_task 3 7 1 (Some 2),
                 mk_task 4 0 1 None]"

definition edited_db :: db where
  "edited_db = [mk_task 1 0 9 None, mk_task 2 5 2 (Some 1), mk_task 3 7 1 (Some 2),
                mk_task 4 0 1 None]"

text \<open>
  Scenario D: tasks 2 and 3 follow task 1, task 4 follows task 2, task 5 follows
  task 3. Task 2 starts too early, task 3 late enough, and task 5 starts before
  task 3 ends. \<open>branch_done_db\<close> is the table after the cascade from task 1.
\<close>

definition branch_db :: db where
  "branch_db = [mk_task 1 0 5 None, mk_task 2 3 2 (Some 1), mk_task 3 9 1 (Some 1),
                mk_task 4 4 1 (Some 2), mk_task 5 0 1 (Some 3)]"

definition branch_done_db :: db where
  "branch_done_db = [mk_task 1 0 5 None, mk_task 2 5 2 (Some 1), mk_task 3 9 1 (Some 1),
                mk_task 4 7 1 (Some 2), mk_task 5 0 1 (Some 3)]"

text \<open>
  One task whose \<^verbatim>\<open>dependency_id\<close> names a row that does not exist yet (the
  update handler stores any number it is given), and two request bodies.
\<close>

definition dangling_db :: db where
  "dangling_db = [mk_task 1 0 1 (Some 2)]"

text \<open>
  Task 1 starts on 1 January 2024 and lasts three million days, which ends after
  the year 9999; task 2 follows it.
\<close>

definition endless_db :: db where
  "endless_db = [mk_task 1 0 3000000 None, mk_task 2 0 1 (Some 1)]"

text \<open>
  Tasks 2 and 4 follow task 1, task 3 follows task 2, and task 2 lasts three
  million days: the cascade from task 1 moves task 2 and fails at task 3.
  \<open>overrun_left_db\<close> is the table the failed cascade leaves in the session.
\<close>

definition overrun_db :: db where
  "overrun_db = [mk_task 1 0 5 None, mk_task 2 3 3000000 (Some 1), mk_task 3 0 1 (Some 2),
                 mk_task 4 0 1 (Some 1)]"

definition overrun_left_db :: db where
  "overrun_left_db = [mk_task 1 0 5 None, mk_task 2 5 3000000 (Some 1), mk_task 3 0 1 (Some 2),
                      mk_task 4 0 1 (Some 1)]"

definition plain_form :: task_form where
  "plain_form = \<lparr>form_task_id = 0, form_project_id = 1, form_task_name = ''task'',
      form_start_date = 0, form_duration_days = 10, form_priority = ''Medium'',
      form_dependency_id = None, form_comments = ''''\<rparr>"

definition longer_form :: task_form where
  "longer_form = \<lparr>form_task_id = 1, form_project_id = 1, form_task_name = ''task'',
      form_start_date = 0, form_duration_days = 9, form_priority = ''Medium'',
      form_dependency_id = None, form_comments = ''''\<rparr>"

lemmas example_defs = chain_db_def settled_db_def edited_db_def branch_db_def branch_done_db_def
  cycle_db_def dangling_db_def endless_db_def overrun_db_def overrun_left_db_def plain_form_def
  longer_form_def mk_task_def

lemmas eval_defs = get_task_def followers_of_def save_task_def
  adjust_start_date_based_on_dependency_def timedelta_days_def date_add_def date_min_def
  date_max_def eval_nat_numeral

section \<open>Lookups\<close>

lemma get_task_id: "get_task tasks i = Some t \<Longrightarrow> task_id t = i"
  by (induction tasks) (auto simp: get_task_def split: if_splits)

lemma get_task_filter_other:
  "i \<noteq> k \<Longrightarrow> get_task (filter (\<lambda>r. task_id r \<noteq> k) tasks) i = get_task tasks i"
  by (induction tasks) (auto simp: get_task_def)

lemma get_task_filter_same:
  "get_task (filter (\<lambda>r. task_id r \<noteq> k) tasks) k = None"
  by (induction tasks) (auto simp: get_task_def)

lemma get_task_mem: "get_task tasks i = Some t \<Longrightarrow> t \<in> set tasks"
  by (induction tasks) (auto simp: get_task_def split: if_splits)

lemma get_task_None_iff: "get_task tasks i = None \<longleftrightarrow> i \<notin> task_id ` set tasks"
  by (induction tasks) (auto simp: get_task_def)

lemma get_task_distinct:
  "distinct (map task_id tasks) \<Longrightarrow> t \<in> set tasks \<Longrightarrow> get_task tasks (task_id t) = Some t"
  by (induction tasks) (auto simp: get_task_def)

lemma get_task_save_other:
  "i \<noteq> task_id t \<Longrightarrow> get_task (save_task tasks t) i = get_task tasks i"
  by (induction tasks) (auto simp: get_task_def save_task_def)

lemma get_task_save_same:
  "get_task tasks (task_id t) \<noteq> None \<Longrightarrow> get_task (save_task tasks t) (task_id t) = Some t"
  by (induction tasks) (auto simp: get_task_def save_task_def)

lemma advanced_fields:
  assumes "advanced t t'"
  shows "task_id t' = task_id t" and "dependency_id t' = dependency_id t"
    and "duration_days t' = duration_days t" and "start_date t \<le> start_date t'"
proof -
  from assms have e: "t' = t\<lparr>start_date := start_date t'\<rparr>" by (simp add: advanced_def)
  have "task_id (t\<lparr>start_date := start_date t'\<rparr>) = task_id t" by simp
  with e show "task_id t' = task_id t" by simp
  have "dependency_id (t\<lparr>start_date := start_date t'\<rparr>) = dependency_id t" by simp
  with e show "dependency_id t' = dependency_id t" by simp
  have "duration_days (t\<lparr>start_date := start_date t'\<rparr>) = duration_days t" by simp
  with e show "duration_days t' = duration_days t" by simp
  from assms show "start_date t \<le> start_date t'" by (simp add: advanced_def)
qed

lemma advanced_refl: "advanced t t"
  by (simp add: advanced_def)

lemma advanced_trans: "advanced a b \<Longrightarrow> advanced b c \<Longrightarrow> advanced a c"
proof -
  assume ab: "advanced a b" and bc: "advanced b c"
  from ab have b: "b = a\<lparr>start_date := start_date b\<rparr>" by (simp add: advanced_def)
  from bc have "c = b\<lparr>start_date := start_date c\<rparr>" by (simp add: advanced_def)
  with b have "c = a\<lparr>start_date := start_date b\<rparr>\<lparr>start_date := start_date c\<rparr>" by simp
  then have "c = a\<lparr>start_date := start_date c\<rparr>" by simp
  moreover from ab bc have "start_date a \<le> start_date c" by (simp add: advanced_def)
  ultimately show ?thesis by (simp add: advanced_def)
qed

lemma advanced_update: "start_date t \<le> s \<Longrightarrow> advanced t (t\<lparr>start_date := s\<rparr>)"
  by (simp add: advanced_def)

lemma evolves_refl: "evolves tasks tasks"
  by (simp add: evolves_def list_all2_same advanced_refl)

lemma evolves_trans: "evolves a b \<Longrightarrow> evolves b c \<Longrightarrow> evolves a c"
  unfolding evolves_def
  using list_all2_trans [of advanced advanced advanced] advanced_trans by blast

lemma evolves_get_task_Some:
  "evolves tasks tasks' \<Longrightarrow> get_task tasks i = Some t \<Longrightarrow>
     \<exists>t'. get_task tasks' i = Some t' \<and> advanced t t'"
  unfolding evolves_def
  by (induction rule: list_all2_induct)
     (auto simp: get_task_def advanced_fields(1) split: if_splits)

lemma evolves_get_task_None:
  "evolves tasks tasks' \<Longrightarrow> get_task tasks i = None \<Longrightarrow> get_task tasks' i = None"
  unfolding evolves_def
  by (induction rule: list_all2_induct)
     (auto simp: get_task_def advanced_fields(1) split: if_splits)

lemma evolves_get_task_back:
  "evolves tasks tasks' \<Longrightarrow> get_task tasks' i = Some t' \<Longrightarrow>
     \<exists>t. get_task tasks i = Some t \<and> advanced t t'"
  using evolves_get_task_None [of tasks tasks' i] evolves_get_task_Some [of tasks tasks' i]
  by (cases "get_task tasks i") auto

lemma evolves_save:
  assumes "start_date t \<le> s" and "distinct (map task_id tasks)" and "t \<in> set tasks"
  shows "evolves tasks (save_task tasks (t\<lparr>start_date := s\<rparr>))"
proof -
  have "list_all2 advanced xs (save_task xs (t\<lparr>start_date := s\<rparr>))"
    if "\<forall>r \<in> set xs. task_id r = task_id t \<longrightarrow> r = t" for xs
    using that
    by (induction xs) (auto simp: save_task_def advanced_refl advanced_update assms(1))
  moreover have "\<forall>r \<in> set tasks. task_id r = task_id t \<longrightarrow> r = t"
    using assms(2,3) by (auto simp: distinct_map inj_on_def)
  ultimately show ?thesis by (simp add: evolves_def)
qed

lemma evolves_ids: "evolves tasks tasks' \<Longrightarrow> map task_id tasks' = map task_id tasks"
  unfolding evolves_def
  by (induction rule: list_all2_induct) (auto simp: advanced_fields(1))

lemma evolves_wf: "evolves tasks tasks' \<Longrightarrow> wf_db tasks \<Longrightarrow> wf_db tasks'"
  by (simp add: wf_db_def evolves_ids)

lemma evolves_dep_of: "evolves tasks tasks' \<Longrightarrow> dep_of tasks' i = dep_of tasks i"
  using evolves_get_task_None [of tasks tasks' i] evolves_get_task_Some [of tasks tasks' i]
  by (cases "get_task tasks i") (auto simp: dep_of_def advanced_fields(2))

lemma evolves_length: "evolves tasks tasks' \<Longrightarrow> length tasks' = length tasks"
  by (simp add: evolves_def list_all2_lengthD)

lemma evolves_rooted: "evolves tasks tasks' \<Longrightarrow> rooted n tasks' i = rooted n tasks i"
proof (induction n arbitrary: i)
  case 0
  show ?case by simp
next
  case (Suc n)
  show ?case
  proof (cases "get_task tasks i")
    case None
    with Suc.prems evolves_get_task_None show ?thesis by simp
  next
    case (Some t)
    with Suc.prems evolves_get_task_Some obtain t' where
      "get_task tasks' i = Some t'" "advanced t t'" by blast
    with Some Suc show ?thesis by (simp add: advanced_fields(2) split: option.splits)
  qed
qed

lemma evolves_forest: "evolves tasks tasks' \<Longrightarrow> forest tasks \<Longrightarrow> forest tasks'"
proof -
  assume e: "evolves tasks tasks'" and f: "forest tasks"
  have "rooted (Suc (length tasks')) tasks' (task_id t')" if "t' \<in> set tasks'" for t'
  proof -
    from that have "task_id t' \<in> set (map task_id tasks')" by simp
    with e have "task_id t' \<in> set (map task_id tasks)" by (simp add: evolves_ids)
    then obtain t where "t \<in> set tasks" "task_id t = task_id t'" by auto
    with f have "rooted (Suc (length tasks)) tasks (task_id t')" by (auto simp: forest_def)
    with e show ?thesis by (simp add: evolves_rooted evolves_length del: rooted.simps)
  qed
  with e f show ?thesis by (simp add: forest_def evolves_wf)
qed

section \<open>The Adjustment Rule\<close>

lemma adjust_present:
  assumes "dependency_id t = Some d" and "d \<noteq> 0" and "get_task tasks d = Some p"
  shows "adjust_start_date_based_on_dependency tasks t =
           (if in_calendar p
            then Inr (if start_date t < end_date p
                      then (t\<lparr>start_date := end_date p\<rparr>, True) else (t, False))
            else Inl OverflowError)"
  using assms
  by (simp add: adjust_start_date_based_on_dependency_def timedelta_days_def date_add_def
      in_calendar_def end_date_def)



text \<open>
  Claim C1 as stated fails when the predecessor's end date is not a date of the
  calendar. Task 1 starts on 1 January 2024 and lasts three million days; for its
  follower the rule neither moves the task nor reports a flag: it raises
  \<^verbatim>\<open>OverflowError\<close>.
\<close>

theorem adjust_overflow_counterexample:
  "get_task endless_db 1 = Some (mk_task 1 0 3000000 None)
   \<and> get_task endless_db 2 = Some (mk_task 2 0 1 (Some 1))
   \<and> adjust_start_date_based_on_dependency endless_db (mk_task 2 0 1 (Some 1))
       = Inl OverflowError"
  by (simp add: example_defs eval_defs)

text \<open>
  Claim C7. For a task without a \<^verbatim>\<open>dependency_id\<close>, and for a task whose
  \<^verbatim>\<open>dependency_id\<close> names no row of the table, the rule returns the task as it
  is with the flag \<open>False\<close>: it returns, and raises no error.
\<close>

theorem adjust_without_predecessor:
  assumes "dependency_id t = None \<or> (\<exists>d. dependency_id t = Some d \<and> get_task tasks d = None)"
  shows "adjust_start_date_based_on_dependency tasks t = Inr (t, False)"
  using assms by (auto simp: adjust_start_date_based_on_dependency_def)

theorem adjust_without_predecessor_witness:
  "adjust_start_date_based_on_dependency chain_db (mk_task 4 0 1 None)
     = Inr (mk_task 4 0 1 None, False)
   \<and> adjust_start_date_based_on_dependency chain_db (mk_task 5 0 1 (Some 9))
       = Inr (mk_task 5 0 1 (Some 9), False)"
proof -
  have a: "dependency_id (mk_task 4 0 1 None) = None
           \<or> (\<exists>d. dependency_id (mk_task 4 0 1 None) = Some d \<and> get_task chain_db d = None)"
    by (simp add: mk_task_def)
  have b: "dependency_id (mk_task 5 0 1 (Some 9)) = None
           \<or> (\<exists>d. dependency_id (mk_task 5 0 1 (Some 9)) = Some d \<and> get_task chain_db d = None)"
    by (simp add: mk_task_def chain_db_def get_task_def)
  show ?thesis
    using adjust_without_predecessor [OF a] adjust_without_predecessor [OF b] by simp
qed

section \<open>Entry points\<close>

lemma adjust_task_id:
  "adjust_start_date_based_on_dependency tasks t = Inr (t', m) \<Longrightarrow> task_id t' = task_id t"
  by (auto simp: adjust_start_date_based_on_dependency_def split: option.splits sum.splits
      if_splits)

lemma save_task_appended:
  assumes "get_task tasks (task_id t) = None" and "task_id t' = task_id t"
  shows "save_task (tasks @ [t]) t' = tasks @ [t']"
proof -
  from assms(1) have "task_id t \<notin> task_id ` set tasks" by (simp add: get_task_None_iff)
  then have "\<forall>r \<in> set tasks. task_id r \<noteq> task_id t" by (metis imageI)
  with assms(2) have "map (\<lambda>r. if task_id r = task_id t' then t' else r) tasks = tasks"
    by (simp add: map_idI)
  with assms(2) show ?thesis by (simp add: save_task_def)
qed

text \<open>
  Claim C6, as the code has it. A create runs the Adjustment Rule on the new task
  and stores the adjusted task as a new row: every row that was there stays as it
  is, and no cascade is run. An edit of an existing task is the composition the
  specification describes: Adjustment Rule on the edited task, persist, Cascade
  Walker rooted at its id; when the walk fails, the table keeps the edited and
  adjusted task. When the Adjustment Rule itself raises, create and edit both
  leave the table as it was.
\<close>

theorem create_and_edit_entry_points:
  "(get_task tasks new_id = None \<longrightarrow>
      add_task_api tasks new_id d =
        (case adjust_start_date_based_on_dependency
                (tasks @ [new_task new_id d]) (new_task new_id d) of
           Inl e \<Rightarrow> (tasks, Inl e)
         | Inr (t', moved) \<Rightarrow> (tasks @ [t'], Inr True)))
   \<and> (get_task tasks (form_task_id d) = Some t \<longrightarrow>
        update_task_api n tasks d =
          (case apply_and_cascade n (save_task tasks (edit_task t d)) (edit_task t d) of
             Inl (e, session) \<Rightarrow>
               (case adjust_start_date_based_on_dependency
                       (save_task tasks (edit_task t d)) (edit_task t d) of
                  Inl e' \<Rightarrow> (tasks, Inl e)
                | Inr (t2, moved) \<Rightarrow> (save_task (save_task tasks (edit_task t d)) t2, Inl e))
           | Inr (tasks', log) \<Rightarrow> (tasks', Inr True)))"
proof (intro conjI impI)
  let ?t = "new_task new_id d"
  assume "get_task tasks new_id = None"
  then have g: "get_task tasks (task_id ?t) = None" by (simp add: new_task_def)
  show "add_task_api tasks new_id d =
        (case adjust_start_date_based_on_dependency (tasks @ [?t]) ?t of
           Inl e \<Rightarrow> (tasks, Inl e)
         | Inr (t', moved) \<Rightarrow> (tasks @ [t'], Inr True))"
  proof (cases "adjust_start_date_based_on_dependency (tasks @ [?t]) ?t")
    case (Inl e)
    then show ?thesis by (simp add: add_task_api_def Let_def)
  next
    case (Inr res)
    obtain t' m where res: "res = (t', m)" by (cases res)
    with Inr have "task_id t' = task_id ?t" by (simp add: adjust_task_id)
    with g have "save_task (tasks @ [?t]) t' = tasks @ [t']" by (rule save_task_appended)
    with Inr res show ?thesis by (simp add: add_task_api_def Let_def)
  qed
next
  assume "get_task tasks (form_task_id d) = Some t"
  then show "update_task_api n tasks d =
          (case apply_and_cascade n (save_task tasks (edit_task t d)) (edit_task t d) of
             Inl (e, session) \<Rightarrow>
               (case adjust_start_date_based_on_dependency
                       (save_task tasks (edit_task t d)) (edit_task t d) of
                  Inl e' \<Rightarrow> (tasks, Inl e)
                | Inr (t2, moved) \<Rightarrow> (save_task (save_task tasks (edit_task t d)) t2, Inl e))
           | Inr (tasks', log) \<Rightarrow> (tasks', Inr True))"
    by (auto simp: update_task_api_def apply_and_cascade_def Let_def
        split: prod.splits sum.splits)
qed

theorem create_and_edit_entry_points_witness:
  "get_task chain_db (form_task_id longer_form) = Some (mk_task 1 0 5 None)
   \<and> update_task_api 5 chain_db longer_form
       = ([mk_task 1 0 9 None, mk_task 2 9 2 (Some 1), mk_task 3 11 1 (Some 2), mk_task 4 0 1 None],
          Inr True)
   \<and> get_task chain_db 5 = None
   \<and> add_task_api chain_db 5 longer_form = (chain_db @ [mk_task 5 0 9 None], Inr True)"
proof -
  have g: "get_task chain_db (form_task_id longer_form) = Some (mk_task 1 0 5 None)"
    by (simp add: chain_db_def longer_form_def get_task_def mk_task_def)
  have a: "apply_and_cascade 5 (save_task chain_db (edit_task (mk_task 1 0 5 None) longer_form))
             (edit_task (mk_task 1 0 5 None) longer_form)
        = Inr ([mk_task 1 0 9 None, mk_task 2 9 2 (Some 1), mk_task 3 11 1 (Some 2),
                mk_task 4 0 1 None], [(2, True), (3, True)])"
    by (simp add: apply_and_cascade_def chain_db_def longer_form_def mk_task_def
        edit_task_def form_dependency_def eval_defs)
  have f: "get_task chain_db 5 = None"
    by (simp add: chain_db_def get_task_def mk_task_def)
  have n: "adjust_start_date_based_on_dependency (chain_db @ [new_task 5 longer_form])
                  (new_task 5 longer_form)
        = Inr (mk_task 5 0 9 None, False)"
    by (simp add: new_task_def longer_form_def form_dependency_def mk_task_def
        adjust_start_date_based_on_dependency_def)
  from create_and_edit_entry_points [of chain_db 5 longer_form "mk_task 1 0 5 None" 5] g a f n
  show ?thesis by simp
qed

text \<open>
  Claim C6 as stated fails for a create. Task 1 already names id 2 as its
  predecessor when the task with id 2 is created: the create leaves task 1 on day
  0, before the new task's end on day 10, whereas the composition with the
  Cascade Walker moves it to day 10.
\<close>

theorem create_cascade_counterexample:
  "add_task_api dangling_db 2 plain_form
     = ([mk_task 1 0 1 (Some 2), mk_task 2 0 10 None], Inr True)
   \<and> create_and_cascade 3 dangling_db 2 plain_form
       = Inr [mk_task 1 10 1 (Some 2), mk_task 2 0 10 None]"
  by (simp add: create_and_cascade_def add_task_api_def new_task_def form_dependency_def
      plain_form_def dangling_db_def mk_task_def eval_defs)

text \<open>
  Claim C9. Deleting a task removes its row and nothing else: every other row,
  and so every follower of the deleted task, stays as it is, start date and
  \<^verbatim>\<open>dependency_id\<close> included. The follower's reference now names no row, and
  the Adjustment Rule leaves the follower alone.
\<close>

theorem delete_keeps_followers:
  assumes "delete_task_api tasks k = (tasks', ok)" and "get_task tasks k = Some t"
  shows "ok \<and> get_task tasks' k = None
       \<and> (\<forall>i. i \<noteq> k \<longrightarrow> get_task tasks' i = get_task tasks i)
       \<and> (\<forall>f tf. f \<noteq> k \<and> get_task tasks f = Some tf \<and> dependency_id tf = Some k \<longrightarrow>
            get_task tasks' f = Some tf
            \<and> adjust_start_date_based_on_dependency tasks' tf = Inr (tf, False))"
proof -
  from assms have k: "task_id t = k" by (simp add: get_task_id)
  with assms have t': "tasks' = filter (\<lambda>r. task_id r \<noteq> k) tasks" and ok: ok
    by (auto simp: delete_task_api_def)
  have gone: "get_task tasks' k = None" by (simp add: t' get_task_filter_same)
  have other: "\<forall>i. i \<noteq> k \<longrightarrow> get_task tasks' i = get_task tasks i"
    by (simp add: t' get_task_filter_other)
  have "adjust_start_date_based_on_dependency tasks' tf = Inr (tf, False)"
    if "dependency_id tf = Some k" for tf
    using that gone by (simp add: adjust_start_date_based_on_dependency_def)
  with ok gone other show ?thesis by simp
qed

theorem delete_keeps_followers_witness:
  "delete_task_api chain_db 1
     = ([mk_task 2 3 2 (Some 1), mk_task 3 4 1 (Some 2), mk_task 4 0 1 None], True)
   \<and> get_task (fst (delete_task_api chain_db 1)) 2 = Some (mk_task 2 3 2 (Some 1))
   \<and> adjust_start_date_based_on_dependency (fst (delete_task_api chain_db 1))
        (mk_task 2 3 2 (Some 1))
        = Inr (mk_task 2 3 2 (Some 1), False)"
proof -
  have d: "delete_task_api chain_db 1
      = ([mk_task 2 3 2 (Some 1), mk_task 3 4 1 (Some 2), mk_task 4 0 1 None], True)"
    by (simp add: delete_task_api_def chain_db_def get_task_def mk_task_def)
  have g: "get_task chain_db 1 = Some (mk_task 1 0 5 None)"
    by (simp add: chain_db_def get_task_def mk_task_def)
  have f: "(2::int) \<noteq> 1 \<and> get_task chain_db 2 = Some (mk_task 2 3 2 (Some 1))
      \<and> dependency_id (mk_task 2 3 2 (Some 1)) = Some 1"
    by (simp add: chain_db_def get_task_def mk_task_def)
  from delete_keeps_followers [OF d g] have
    "\<forall>f tf. f \<noteq> 1 \<and> get_task chain_db f = Some tf \<and> dependency_id tf = Some 1 \<longrightarrow>
       get_task [mk_task 2 3 2 (Some 1), mk_task 3 4 1 (Some 2), mk_task 4 0 1 None] f = Some tf
       \<and> adjust_start_date_based_on_dependency
            [mk_task 2 3 2 (Some 1), mk_task 3 4 1 (Some 2), mk_task 4 0 1 None] tf
           = Inr (tf, False)"
    by blast
  from this [rule_format, OF f] d show ?thesis by simp
qed

section \<open>A cycle of two tasks\<close>








section \<open>Runs of the cascade that return\<close>

lemma cascade_walk:
  "cascade_updates n tasks i = Inr (tasks', log) \<Longrightarrow> walk tasks i tasks' log"
  "cascade_followers n tasks fs = Inr (tasks', log) \<Longrightarrow> walk_followers tasks fs tasks' log"
proof (induction n tasks i and n tasks fs arbitrary: tasks' log and tasks' log
    rule: cascade_updates_cascade_followers.induct)
  case (1 tasks i)
  then show ?case by simp
next
  case (2 n tasks i)
  then show ?case
    by (cases "get_task tasks i") (auto intro: walk_walk_followers.intros)
next
  case (3 n tasks)
  then show ?case by (auto intro: walk_walk_followers.intros)
next
  case (4 n tasks f fs)
  show ?case
  proof (cases "get_task tasks f")
    case None
    with 4 show ?thesis by (auto intro: walk_walk_followers.intros)
  next
    case (Some t)
    from 4(5) Some obtain t' m where a: "adjust_start_date_based_on_dependency tasks t = Inr (t', m)"
      by (cases "adjust_start_date_based_on_dependency tasks t") auto
    show ?thesis
    proof (cases m)
      case True
      with 4(5) Some a obtain tasks1 log1 log2 where
        r1: "cascade_updates n (save_task tasks t') f = Inr (tasks1, log1)" and
        r2: "cascade_followers n tasks1 fs = Inr (tasks', log2)" and
        l: "log = (f, True) # log1 @ log2"
        by (auto split: sum.splits)
      from 4(2) [OF Some a refl True r1]
      have w1: "walk (save_task tasks t') f tasks1 log1" .
      from 4(3) [OF Some a refl True r1 refl r2]
      have w2: "walk_followers tasks1 fs tasks' log2" .
      from Some a True w1 w2 l show ?thesis by (auto intro: walk_walk_followers.moved)
    next
      case False
      with 4(5) Some a obtain log2 where
        r2: "cascade_followers n tasks fs = Inr (tasks', log2)" and
        l: "log = (f, False) # log2"
        by (auto split: sum.splits)
      from 4(4) [OF Some a refl False r2]
      have "walk_followers tasks fs tasks' log2" .
      with Some a False l show ?thesis by (auto intro: walk_walk_followers.unmoved)
    qed
  qed
qed

lemma in_calendar_advanced:
  assumes "advanced p p'" and "in_calendar p" and "end_date p' \<le> date_max"
  shows "in_calendar p'"
proof -
  from assms(1) have "duration_days p' = duration_days p" "start_date p \<le> start_date p'"
    by (simp_all add: advanced_fields)
  with assms(2,3) show ?thesis by (simp add: in_calendar_def end_date_def)
qed

lemma adjust_moved:
  assumes "adjust_start_date_based_on_dependency tasks t = Inr (t', True)"
  obtains d p where "dependency_id t = Some d" and "d \<noteq> 0" and "get_task tasks d = Some p"
    and "start_date t < end_date p" and "t' = t\<lparr>start_date := end_date p\<rparr>"
    and "in_calendar p"
  using assms
  by (auto simp: adjust_start_date_based_on_dependency_def end_date_def timedelta_days_def
      date_add_def in_calendar_def split: option.splits if_splits)

lemma adjust_unmoved:
  assumes "adjust_start_date_based_on_dependency tasks t = Inr (t', False)"
  shows "t' = t"
    and "dependency_id t = Some d \<Longrightarrow> d \<noteq> 0 \<Longrightarrow> get_task tasks d = Some p \<Longrightarrow>
         end_date p \<le> start_date t"
    and "dependency_id t = Some d \<Longrightarrow> d \<noteq> 0 \<Longrightarrow> get_task tasks d = Some p \<Longrightarrow>
         in_calendar p"
  using assms
  by (auto simp: adjust_start_date_based_on_dependency_def end_date_def timedelta_days_def
      date_add_def in_calendar_def split: option.splits if_splits)

lemma moved_step_evolves:
  assumes "distinct (map task_id tasks)" and "get_task tasks f = Some t"
    and "adjust_start_date_based_on_dependency tasks t = Inr (t', True)"
  shows "evolves tasks (save_task tasks t')"
proof -
  from assms(3) obtain p where "start_date t < end_date p" "t' = t\<lparr>start_date := end_date p\<rparr>"
    by (rule adjust_moved)
  with assms(1) get_task_mem [OF assms(2)] show ?thesis by (simp add: evolves_save)
qed

lemma evolves_distinct:
  "evolves tasks tasks' \<Longrightarrow> distinct (map task_id tasks) \<Longrightarrow> distinct (map task_id tasks')"
  by (simp add: evolves_ids)

lemma walk_evolves:
  "walk tasks i tasks' log \<Longrightarrow> distinct (map task_id tasks) \<Longrightarrow> evolves tasks tasks'"
  "walk_followers tasks fs tasks' log \<Longrightarrow> distinct (map task_id tasks) \<Longrightarrow> evolves tasks tasks'"
proof (induction rule: walk_walk_followers.inducts)
  case (moved tasks f t t' tasks1 log1 fs tasks' log2)
  from moved.prems moved.hyps(1,2) have e0: "evolves tasks (save_task tasks t')"
    by (rule moved_step_evolves)
  with moved.prems have d0: "distinct (map task_id (save_task tasks t'))"
    by (simp add: evolves_distinct)
  with moved.IH(1) have e1: "evolves (save_task tasks t') tasks1" by simp
  with d0 have "distinct (map task_id tasks1)" by (simp add: evolves_distinct)
  with moved.IH(2) have "evolves tasks1 tasks'" by simp
  with e0 e1 show ?case by (blast intro: evolves_trans)
qed (simp_all add: evolves_refl)

lemma moved_step_lookup:
  assumes "get_task tasks f = Some t"
    and "adjust_start_date_based_on_dependency tasks t = Inr (t', True)"
  shows "get_task (save_task tasks t') y = (if y = f then Some t' else get_task tasks y)"
proof -
  from assms(2) obtain p where "t' = t\<lparr>start_date := end_date p\<rparr>" by (rule adjust_moved)
  then have "task_id t' = task_id t" by simp
  with assms(1) have i: "task_id t' = f" by (simp add: get_task_id)
  with assms(1) have "get_task tasks (task_id t') \<noteq> None" by simp
  then have "get_task (save_task tasks t') (task_id t') = Some t'" by (rule get_task_save_same)
  with i get_task_save_other [of y t' tasks] show ?thesis by auto
qed

text \<open>A task whose row changed has a \<open>True\<close> entry in the log.\<close>

lemma walk_changed_logged:
  "walk tasks i tasks' log \<Longrightarrow> (y, True) \<notin> set log \<Longrightarrow> get_task tasks' y = get_task tasks y"
  "walk_followers tasks fs tasks' log \<Longrightarrow> (y, True) \<notin> set log \<Longrightarrow>
     get_task tasks' y = get_task tasks y"
proof (induction rule: walk_walk_followers.inducts)
  case (moved tasks f t t' tasks1 log1 fs tasks' log2)
  then have "y \<noteq> f" by auto
  with moved.hyps(1,2) have "get_task (save_task tasks t') y = get_task tasks y"
    by (simp add: moved_step_lookup)
  with moved show ?case by simp
qed simp_all

lemma followers_dep_of:
  assumes "distinct (map task_id tasks)"
  shows "f \<in> set (map task_id (followers_of tasks i)) \<longleftrightarrow> dep_of tasks f = Some i"
proof
  assume "f \<in> set (map task_id (followers_of tasks i))"
  then obtain t where "t \<in> set tasks" "dependency_id t = Some i" "task_id t = f"
    by (auto simp: followers_of_def)
  with assms get_task_distinct [of tasks t] show "dep_of tasks f = Some i"
    by (auto simp: dep_of_def)
next
  assume "dep_of tasks f = Some i"
  then obtain t where g: "get_task tasks f = Some t" and "dependency_id t = Some i"
    by (auto simp: dep_of_def split: option.splits)
  with get_task_mem [OF g] get_task_id [OF g] show "f \<in> set (map task_id (followers_of tasks i))"
    by (auto simp: followers_of_def)
qed

lemma advanced_end_date: "advanced p p' \<Longrightarrow> end_date p \<le> end_date p'"
  using advanced_fields(3,4) [of p p'] by (simp add: end_date_def)

lemma moved_forward_between:
  assumes "evolves tasks ta" and "evolves tb tasks'"
    and "get_task ta y = Some a" and "get_task tb y = Some b" and "start_date a < start_date b"
  shows "moved_forward tasks tasks' y"
proof -
  from evolves_get_task_back [OF assms(1,3)] obtain t where
    t: "get_task tasks y = Some t" "advanced t a" by blast
  from evolves_get_task_Some [OF assms(2,4)] obtain t' where
    t': "get_task tasks' y = Some t'" "advanced b t'" by blast
  from t(2) t'(2) assms(5) have "start_date t < start_date t'"
    using advanced_fields(4) [of t a] advanced_fields(4) [of b t'] by simp
  with t(1) t'(1) show ?thesis by (auto simp: moved_forward_def)
qed

lemma moved_step_forward:
  assumes "get_task tasks f = Some t"
    and "adjust_start_date_based_on_dependency tasks t = Inr (t', True)"
  shows "start_date t < start_date t'"
  using assms(2) by (rule adjust_moved) simp

lemma walk_moved_forward:
  "walk tasks i tasks' log \<Longrightarrow> distinct (map task_id tasks) \<Longrightarrow> (y, True) \<in> set log \<Longrightarrow>
     moved_forward tasks tasks' y"
  "walk_followers tasks fs tasks' log \<Longrightarrow> distinct (map task_id tasks) \<Longrightarrow>
     (y, True) \<in> set log \<Longrightarrow> moved_forward tasks tasks' y"
proof (induction rule: walk_walk_followers.inducts)
  case (unmoved tasks f t t' fs tasks' log)
  then show ?case by simp
next
  case (moved tasks f t t' tasks1 log1 fs tasks' log2)
  let ?t0 = "save_task tasks t'"
  from moved.prems(1) moved.hyps(1,2) have e0: "evolves tasks ?t0" by (rule moved_step_evolves)
  with moved.prems(1) have d0: "distinct (map task_id ?t0)" by (simp add: evolves_distinct)
  with moved.hyps(3) have e1: "evolves ?t0 tasks1" by (simp add: walk_evolves)
  with d0 have d1: "distinct (map task_id tasks1)" by (simp add: evolves_distinct)
  with moved.hyps(4) have e2: "evolves tasks1 tasks'" by (simp add: walk_evolves)
  from moved.prems(2) consider "y = f" | "(y, True) \<in> set log1" | "(y, True) \<in> set log2"
    by auto
  then show ?case
  proof cases
    case 1
    from moved.hyps(1,2) have "get_task ?t0 f = Some t'" by (simp add: moved_step_lookup)
    with 1 moved.hyps(1) moved_step_forward [OF moved.hyps(1,2)] evolves_refl [of tasks]
      evolves_trans [OF e1 e2]
    show ?thesis by (auto intro: moved_forward_between)
  next
    case 2
    with moved.IH(1) d0 have "moved_forward ?t0 tasks1 y" by simp
    then obtain a b where "get_task ?t0 y = Some a" "get_task tasks1 y = Some b"
      "start_date a < start_date b" by (auto simp: moved_forward_def)
    with e0 e2 show ?thesis by (auto intro: moved_forward_between)
  next
    case 3
    with moved.IH(2) d1 have "moved_forward tasks1 tasks' y" by simp
    then obtain a b where "get_task tasks1 y = Some a" "get_task tasks' y = Some b"
      "start_date a < start_date b" by (auto simp: moved_forward_def)
    with evolves_trans [OF e0 e1] evolves_refl [of tasks'] show ?thesis
      by (auto intro: moved_forward_between)
  qed
qed simp_all

lemma at_most_end_carried:
  assumes "evolves tasks tasks'" and "at_most_end tasks y"
    and "get_task tasks' y = get_task tasks y"
  shows "at_most_end tasks' y"
proof -
  from assms(2) obtain t d p where t: "get_task tasks y = Some t" "dependency_id t = Some d"
    "d \<noteq> 0" "get_task tasks d = Some p" "start_date t \<le> end_date p"
    by (auto simp: at_most_end_def)
  from evolves_get_task_Some [OF assms(1) t(4)] obtain p' where
    p': "get_task tasks' d = Some p'" "advanced p p'" by blast
  from t(5) advanced_end_date [OF p'(2)] have "start_date t \<le> end_date p'" by simp
  with t assms(3) p'(1) show ?thesis by (auto simp: at_most_end_def)
qed

lemma moved_step_at_most_end:
  assumes "distinct (map task_id tasks)" and "get_task tasks f = Some t"
    and "adjust_start_date_based_on_dependency tasks t = Inr (t', True)"
  shows "at_most_end (save_task tasks t') f"
proof -
  from assms(3) obtain d p where dp: "dependency_id t = Some d" "d \<noteq> 0"
    "get_task tasks d = Some p" "t' = t\<lparr>start_date := end_date p\<rparr>"
    by (rule adjust_moved)
  from assms have e0: "evolves tasks (save_task tasks t')" by (rule moved_step_evolves)
  from evolves_get_task_Some [OF e0 dp(3)] obtain p' where
    p': "get_task (save_task tasks t') d = Some p'" "advanced p p'" by blast
  from assms(2,3) have "get_task (save_task tasks t') f = Some t'" by (simp add: moved_step_lookup)
  moreover from dp(1,4) have "dependency_id t' = Some d" by simp
  moreover from dp(4) advanced_end_date [OF p'(2)] have "start_date t' \<le> end_date p'" by simp
  ultimately show ?thesis using dp(2) p'(1) by (auto simp: at_most_end_def)
qed

lemma walk_moved_at_most_end:
  "walk tasks i tasks' log \<Longrightarrow> distinct (map task_id tasks) \<Longrightarrow> (y, True) \<in> set log \<Longrightarrow>
     at_most_end tasks' y"
  "walk_followers tasks fs tasks' log \<Longrightarrow> distinct (map task_id tasks) \<Longrightarrow>
     (y, True) \<in> set log \<Longrightarrow> at_most_end tasks' y"
proof (induction rule: walk_walk_followers.inducts)
  case (unmoved tasks f t t' fs tasks' log)
  then show ?case by simp
next
  case (moved tasks f t t' tasks1 log1 fs tasks' log2)
  let ?t0 = "save_task tasks t'"
  from moved.prems(1) moved.hyps(1,2) have e0: "evolves tasks ?t0" by (rule moved_step_evolves)
  with moved.prems(1) have d0: "distinct (map task_id ?t0)" by (simp add: evolves_distinct)
  with moved.hyps(3) have e1: "evolves ?t0 tasks1" by (simp add: walk_evolves)
  with d0 have d1: "distinct (map task_id tasks1)" by (simp add: evolves_distinct)
  with moved.hyps(4) have e2: "evolves tasks1 tasks'" by (simp add: walk_evolves)
  show ?case
  proof (cases "(y, True) \<in> set log2")
    case True
    with moved.IH(2) d1 show ?thesis by simp
  next
    case n2: False
    with moved.hyps(4) have same2: "get_task tasks' y = get_task tasks1 y"
      by (simp add: walk_changed_logged)
    show ?thesis
    proof (cases "(y, True) \<in> set log1")
      case True
      with moved.IH(1) d0 have "at_most_end tasks1 y" by simp
      with e2 show ?thesis using same2 by (rule at_most_end_carried)
    next
      case n1: False
      with n2 moved.prems(2) have y: "y = f" by auto
      from n1 moved.hyps(3) have "get_task tasks1 y = get_task ?t0 y"
        by (simp add: walk_changed_logged)
      with same2 have same: "get_task tasks' y = get_task ?t0 y" by simp
      from moved.prems(1) moved.hyps(1,2) have "at_most_end ?t0 f"
        by (rule moved_step_at_most_end)
      with y evolves_trans [OF e1 e2] same show ?thesis by (auto intro: at_most_end_carried)
    qed
  qed
qed simp_all

lemma reachable_direct: "dep_of tasks i = Some r \<Longrightarrow> reachable tasks r i"
  by (auto simp: dep_of_def split: option.splits intro: reachable.direct)

lemma reachable_step: "reachable tasks r j \<Longrightarrow> dep_of tasks i = Some j \<Longrightarrow> reachable tasks r i"
  by (auto simp: dep_of_def split: option.splits intro: reachable.step)

lemma reachable_dep_of_induct [consumes 1, case_names direct step]:
  assumes "reachable tasks r i"
    and "\<And>i. dep_of tasks i = Some r \<Longrightarrow> P i"
    and "\<And>j i. reachable tasks r j \<Longrightarrow> P j \<Longrightarrow> dep_of tasks i = Some j \<Longrightarrow> P i"
  shows "P i"
  using assms(1)
proof (induction rule: reachable.induct)
  case (direct i t)
  then show ?case by (auto simp: dep_of_def intro: assms(2))
next
  case (step j i t)
  then show ?case by (auto simp: dep_of_def intro: assms(3))
qed

lemma reachable_cong:
  assumes "\<And>i. dep_of tasks' i = dep_of tasks i"
  shows "reachable tasks' r i = reachable tasks r i"
proof
  assume "reachable tasks' r i"
  then show "reachable tasks r i"
    by (induction rule: reachable_dep_of_induct)
       (auto simp: assms intro: reachable_direct reachable_step)
next
  assume "reachable tasks r i"
  then show "reachable tasks' r i"
    by (induction rule: reachable_dep_of_induct)
       (auto simp: assms [symmetric] intro: reachable_direct reachable_step)
qed

lemma evolves_reachable: "evolves tasks tasks' \<Longrightarrow> reachable tasks' r i = reachable tasks r i"
  by (rule reachable_cong) (rule evolves_dep_of)

lemma reachable_trans: "reachable tasks b c \<Longrightarrow> reachable tasks a b \<Longrightarrow> reachable tasks a c"
  by (induction rule: reachable_dep_of_induct) (auto intro: reachable_step)

lemma reachable_below: "dep_of tasks f = Some x \<Longrightarrow> reachable tasks f y \<Longrightarrow> reachable tasks x y"
  using reachable_trans [of tasks f y x] by (simp add: reachable_direct)


text \<open>
  Every entry of the log is a task whose predecessor is the root of the walk or a
  task the log reports as moved.
\<close>

lemma walk_log_parent:
  "walk tasks i tasks' log \<Longrightarrow> distinct (map task_id tasks) \<Longrightarrow>
     \<forall>e \<in> set log. \<exists>d. dep_of tasks (fst e) = Some d \<and> (d = i \<or> (d, True) \<in> set log)"
  "walk_followers tasks fs tasks' log \<Longrightarrow> distinct (map task_id tasks) \<Longrightarrow>
     \<forall>x. (\<forall>f \<in> set fs. dep_of tasks f = Some x) \<longrightarrow>
       (\<forall>e \<in> set log. \<exists>d. dep_of tasks (fst e) = Some d \<and> (d = x \<or> (d, True) \<in> set log))"
proof (induction rule: walk_walk_followers.inducts)
  case (present tasks i t tasks' log)
  from present.hyps(1) have "task_id t = i" by (rule get_task_id)
  with present.prems have "\<forall>f \<in> set (map task_id (followers_of tasks (task_id t))).
      dep_of tasks f = Some i"
    using followers_dep_of [of tasks _ i] by blast
  with present.IH present.prems show ?case by blast
next
  case (moved tasks f t t' tasks1 log1 fs tasks' log2)
  let ?t0 = "save_task tasks t'"
  from moved.prems(1) moved.hyps(1,2) have e0: "evolves tasks ?t0" by (rule moved_step_evolves)
  with moved.prems(1) have d0: "distinct (map task_id ?t0)" by (simp add: evolves_distinct)
  with moved.hyps(3) have e1: "evolves ?t0 tasks1" by (simp add: walk_evolves)
  with d0 have d1: "distinct (map task_id tasks1)" by (simp add: evolves_distinct)
  from e0 have dep0: "\<And>k. dep_of ?t0 k = dep_of tasks k" by (rule evolves_dep_of)
  from evolves_trans [OF e0 e1] have dep1: "\<And>k. dep_of tasks1 k = dep_of tasks k"
    by (rule evolves_dep_of)
  show ?case
  proof (intro allI impI ballI)
    fix x e
    assume x: "\<forall>f \<in> set (f # fs). dep_of tasks f = Some x"
      and e: "e \<in> set ((f, True) # log1 @ log2)"
    from e consider "e = (f, True)" | "e \<in> set log1" | "e \<in> set log2" by auto
    then show "\<exists>d. dep_of tasks (fst e) = Some d
        \<and> (d = x \<or> (d, True) \<in> set ((f, True) # log1 @ log2))"
    proof cases
      case 1
      with x show ?thesis by simp
    next
      case 2
      with moved.IH(1) d0 obtain d where "dep_of ?t0 (fst e) = Some d"
        "d = f \<or> (d, True) \<in> set log1" by blast
      then show ?thesis by (auto simp: dep0)
    next
      case 3
      from x have "\<forall>f \<in> set fs. dep_of tasks1 f = Some x" by (simp add: dep1)
      with moved.IH(2) d1 3 obtain d where "dep_of tasks1 (fst e) = Some d"
        "d = x \<or> (d, True) \<in> set log2" by blast
      then show ?thesis by (auto simp: dep1)
    qed
  qed
next
  case (unmoved tasks f t t' fs tasks' log)
  then show ?case by auto
next
  case (skipped tasks f fs tasks' log)
  then show ?case by auto
qed simp_all

text \<open>Every entry of the log is a task reachable from the root of the walk.\<close>

lemma walk_log_reachable:
  "walk tasks i tasks' log \<Longrightarrow> distinct (map task_id tasks) \<Longrightarrow>
     \<forall>e \<in> set log. reachable tasks i (fst e)"
  "walk_followers tasks fs tasks' log \<Longrightarrow> distinct (map task_id tasks) \<Longrightarrow>
     \<forall>x. (\<forall>f \<in> set fs. dep_of tasks f = Some x) \<longrightarrow>
       (\<forall>e \<in> set log. reachable tasks x (fst e))"
proof (induction rule: walk_walk_followers.inducts)
  case (present tasks i t tasks' log)
  from present.hyps(1) have "task_id t = i" by (rule get_task_id)
  with present.prems have "\<forall>f \<in> set (map task_id (followers_of tasks (task_id t))).
      dep_of tasks f = Some i"
    using followers_dep_of [of tasks _ i] by blast
  with present.IH present.prems show ?case by blast
next
  case (moved tasks f t t' tasks1 log1 fs tasks' log2)
  let ?t0 = "save_task tasks t'"
  from moved.prems(1) moved.hyps(1,2) have e0: "evolves tasks ?t0" by (rule moved_step_evolves)
  with moved.prems(1) have d0: "distinct (map task_id ?t0)" by (simp add: evolves_distinct)
  with moved.hyps(3) have e1: "evolves ?t0 tasks1" by (simp add: walk_evolves)
  with d0 have d1: "distinct (map task_id tasks1)" by (simp add: evolves_distinct)
  from evolves_trans [OF e0 e1] have dep1: "\<And>k. dep_of tasks1 k = dep_of tasks k"
    by (rule evolves_dep_of)
  show ?case
  proof (intro allI impI ballI)
    fix x e
    assume x: "\<forall>f \<in> set (f # fs). dep_of tasks f = Some x"
      and e: "e \<in> set ((f, True) # log1 @ log2)"
    from e consider "e = (f, True)" | "e \<in> set log1" | "e \<in> set log2" by auto
    then show "reachable tasks x (fst e)"
    proof cases
      case 1
      with x show ?thesis by (simp add: reachable_direct)
    next
      case 2
      with moved.IH(1) d0 have "reachable ?t0 f (fst e)" by blast
      with e0 have "reachable tasks f (fst e)" by (simp add: evolves_reachable)
      with x show ?thesis by (auto intro: reachable_below)
    next
      case 3
      from x have "\<forall>f \<in> set fs. dep_of tasks1 f = Some x" by (simp add: dep1)
      with moved.IH(2) d1 3 have "reachable tasks1 x (fst e)" by blast
      with evolves_trans [OF e0 e1] show ?thesis by (simp add: evolves_reachable)
    qed
  qed
next
  case (unmoved tasks f t t' fs tasks' log)
  then show ?case by (auto intro: reachable_direct)
next
  case (skipped tasks f fs tasks' log)
  then show ?case by auto
qed simp_all

lemma dependency_ok_carried:
  assumes "evolves tasks tasks'" and "dependency_ok tasks f" and "dep_of tasks f = Some x"
    and "get_task tasks' x = get_task tasks x"
  shows "dependency_ok tasks' f"
proof -
  from assms(3) obtain t where t: "get_task tasks f = Some t" "dependency_id t = Some x"
    by (auto simp: dep_of_def split: option.splits)
  from evolves_get_task_Some [OF assms(1) t(1)] obtain t' where
    t': "get_task tasks' f = Some t'" "advanced t t'" by blast
  from t'(2) t(2) have d': "dependency_id t' = Some x" by (simp add: advanced_fields(2))
  show ?thesis
  proof (cases "get_task tasks x")
    case None
    with assms(4) t'(1) d' show ?thesis by (simp add: dependency_ok_def)
  next
    case (Some p)
    with assms(2) t have "end_date p \<le> start_date t" by (simp add: dependency_ok_def)
    with advanced_fields(4) [OF t'(2)] have "end_date p \<le> start_date t'" by simp
    with Some assms(4) t'(1) d' show ?thesis by (simp add: dependency_ok_def)
  qed
qed

lemma followers_ok_dependency_ok:
  "followers_ok tasks x \<Longrightarrow> dep_of tasks f = Some x \<Longrightarrow> dependency_ok tasks f"
  by (simp add: followers_ok_def)

lemma followers_ok_carried:
  assumes "evolves tasks tasks'" and "followers_ok tasks y"
    and "get_task tasks' y = get_task tasks y"
  shows "followers_ok tasks' y"
  unfolding followers_ok_def
proof (intro allI impI)
  fix f
  assume "dep_of tasks' f = Some y"
  with assms(1) have d: "dep_of tasks f = Some y" by (simp add: evolves_dep_of)
  with assms(2) have "dependency_ok tasks f" by (rule followers_ok_dependency_ok)
  with assms(1) show "dependency_ok tasks' f" using d assms(3) by (rule dependency_ok_carried)
qed

text \<open>
  What a later part of the walk keeps of an earlier part: when every task the
  later part moved is settled at its end, so is every task that was settled before
  it began.
\<close>

lemma settled_followers_ok:
  assumes "evolves tasks tasks'"
    and "\<forall>y. (y, True) \<notin> set log \<longrightarrow> get_task tasks' y = get_task tasks y"
    and "\<forall>y. (y, True) \<in> set log \<longrightarrow> followers_ok tasks' y"
    and "followers_ok tasks y"
  shows "followers_ok tasks' y"
proof (cases "(y, True) \<in> set log")
  case True
  with assms(3) show ?thesis by simp
next
  case False
  with assms(2) have "get_task tasks' y = get_task tasks y" by simp
  with assms(1,4) show ?thesis by (simp add: followers_ok_carried)
qed

lemma settled_dependency_ok:
  assumes "evolves tasks tasks'"
    and "\<forall>y. (y, True) \<notin> set log \<longrightarrow> get_task tasks' y = get_task tasks y"
    and "\<forall>y. (y, True) \<in> set log \<longrightarrow> followers_ok tasks' y"
    and "dependency_ok tasks f" and "dep_of tasks f = Some x"
  shows "dependency_ok tasks' f"
proof (cases "(x, True) \<in> set log")
  case True
  with assms(3) have "followers_ok tasks' x" by simp
  moreover from assms(1,5) have "dep_of tasks' f = Some x" by (simp add: evolves_dep_of)
  ultimately show ?thesis by (rule followers_ok_dependency_ok)
next
  case False
  with assms(2) have "get_task tasks' x = get_task tasks x" by simp
  with assms(1,4,5) show ?thesis by (simp add: dependency_ok_carried)
qed

lemma wf_db_nonzero: "wf_db tasks \<Longrightarrow> get_task tasks x = Some p \<Longrightarrow> x \<noteq> 0"
  using get_task_mem [of tasks x p] get_task_id [of tasks x p] by (auto simp: wf_db_def)

lemma wf_db_distinct: "wf_db tasks \<Longrightarrow> distinct (map task_id tasks)"
  by (simp add: wf_db_def)

lemma unmoved_dependency_ok:
  assumes "wf_db tasks" and "get_task tasks f = Some t"
    and "adjust_start_date_based_on_dependency tasks t = Inr (t', False)"
  shows "dependency_ok tasks f"
proof (cases "dependency_id t")
  case None
  with assms(2) show ?thesis by (simp add: dependency_ok_def)
next
  case (Some d)
  show ?thesis
  proof (cases "get_task tasks d")
    case None
    with Some assms(2) show ?thesis by (simp add: dependency_ok_def)
  next
    case p: (Some p)
    with assms(1) have "d \<noteq> 0" by (rule wf_db_nonzero)
    with adjust_unmoved(2) [OF assms(3) Some _ p] have "end_date p \<le> start_date t" by simp
    with Some p assms(2) show ?thesis by (simp add: dependency_ok_def)
  qed
qed

lemma moved_dependency_ok:
  assumes "get_task tasks f = Some t"
    and "adjust_start_date_based_on_dependency tasks t = Inr (t', True)"
    and "dep_of tasks f = Some x" and "x \<noteq> f"
  shows "dependency_ok (save_task tasks t') f"
proof -
  from assms(2) obtain d p where dp: "dependency_id t = Some d" "get_task tasks d = Some p"
    "t' = t\<lparr>start_date := end_date p\<rparr>"
    by (rule adjust_moved)
  from assms(1,3) dp(1) have x: "d = x" by (simp add: dep_of_def)
  from assms(1,2) have l: "\<And>y. get_task (save_task tasks t') y
      = (if y = f then Some t' else get_task tasks y)" by (rule moved_step_lookup)
  from l have lf: "get_task (save_task tasks t') f = Some t'" by simp
  from l assms(4) dp(2) x have lx: "get_task (save_task tasks t') x = Some p" by simp
  from dp(1,3) x have dt: "dependency_id t' = Some x" by simp
  from dp(3) have "end_date p \<le> start_date t'" by simp
  with lf lx dt show ?thesis by (simp add: dependency_ok_def)
qed

text \<open>
  When the walk returns, every follower of the root and every follower of a task
  the walk moved starts no earlier than the end of that task.
\<close>

lemma walk_followers_ok:
  "walk tasks i tasks' log \<Longrightarrow> wf_db tasks \<Longrightarrow>
     followers_ok tasks' i \<and> (\<forall>y. (y, True) \<in> set log \<longrightarrow> followers_ok tasks' y)"
  "walk_followers tasks fs tasks' log \<Longrightarrow> wf_db tasks \<Longrightarrow>
     \<forall>x. (\<forall>f \<in> set fs. dep_of tasks f = Some x) \<longrightarrow>
       (\<forall>f \<in> set fs. dependency_ok tasks' f)
       \<and> (\<forall>y. (y, True) \<in> set log \<longrightarrow> followers_ok tasks' y)"
proof (induction rule: walk_walk_followers.inducts)
  case (absent tasks i)
  then show ?case by (simp add: followers_ok_def dependency_ok_def dep_of_def split: option.splits)
next
  case (present tasks i t tasks' log)
  let ?fs = "map task_id (followers_of tasks (task_id t))"
  from present.prems have d: "distinct (map task_id tasks)" by (rule wf_db_distinct)
  from present.hyps(1) have i: "task_id t = i" by (rule get_task_id)
  from d i have fs: "\<And>f. f \<in> set ?fs \<longleftrightarrow> dep_of tasks f = Some i"
    using followers_dep_of [of tasks _ i] by simp
  with present.IH present.prems have ok: "\<forall>f \<in> set ?fs. dependency_ok tasks' f"
    and rest: "\<forall>y. (y, True) \<in> set log \<longrightarrow> followers_ok tasks' y" by blast+
  from present.hyps(2) d have "evolves tasks tasks'" by (rule walk_evolves)
  then have dep: "\<And>f. dep_of tasks' f = dep_of tasks f" by (rule evolves_dep_of)
  have "dependency_ok tasks' f" if "dep_of tasks' f = Some i" for f
  proof -
    from that have "dep_of tasks f = Some i" by (simp add: dep)
    then have "f \<in> set ?fs" by (simp only: fs)
    with ok show ?thesis by blast
  qed
  then have "followers_ok tasks' i" by (simp add: followers_ok_def)
  with rest show ?case by simp
next
  case (finished tasks)
  then show ?case by simp
next
  case (skipped tasks f fs tasks' log)
  then show ?case by (auto simp: dep_of_def)
next
  case (unmoved tasks f t t' fs tasks' log)
  from unmoved.prems have d: "distinct (map task_id tasks)" by (rule wf_db_distinct)
  from unmoved.hyps(3) d have e: "evolves tasks tasks'" by (rule walk_evolves)
  have same: "\<forall>y. (y, True) \<notin> set log \<longrightarrow> get_task tasks' y = get_task tasks y"
    using unmoved.hyps(3) by (simp add: walk_changed_logged)
  from unmoved.prems unmoved.hyps(1,2) have okf: "dependency_ok tasks f"
    by (rule unmoved_dependency_ok)
  show ?case
  proof (intro allI impI)
    fix x
    assume x: "\<forall>f \<in> set (f # fs). dep_of tasks f = Some x"
    with unmoved.IH unmoved.prems have ok: "\<forall>f \<in> set fs. dependency_ok tasks' f"
      and rest: "\<forall>y. (y, True) \<in> set log \<longrightarrow> followers_ok tasks' y" by auto
    from x have "dep_of tasks f = Some x" by simp
    with okf have "dependency_ok tasks' f"
      by (rule settled_dependency_ok [OF e same rest])
    with ok rest show "(\<forall>f \<in> set (f # fs). dependency_ok tasks' f)
        \<and> (\<forall>y. (y, True) \<in> set ((f, False) # log) \<longrightarrow> followers_ok tasks' y)" by simp
  qed
next
  case (moved tasks f t t' tasks1 log1 fs tasks' log2)
  let ?t0 = "save_task tasks t'"
  from moved.prems have d: "distinct (map task_id tasks)" by (rule wf_db_distinct)
  from d moved.hyps(1,2) have e0: "evolves tasks ?t0" by (rule moved_step_evolves)
  with moved.prems have w0: "wf_db ?t0" by (simp add: evolves_wf)
  then have d0: "distinct (map task_id ?t0)" by (rule wf_db_distinct)
  with moved.hyps(3) have e1: "evolves ?t0 tasks1" by (simp add: walk_evolves)
  with w0 have w1: "wf_db tasks1" by (simp add: evolves_wf)
  then have d1: "distinct (map task_id tasks1)" by (rule wf_db_distinct)
  with moved.hyps(4) have e2: "evolves tasks1 tasks'" by (simp add: walk_evolves)
  from e0 have dep0: "\<And>k. dep_of ?t0 k = dep_of tasks k" by (rule evolves_dep_of)
  from evolves_trans [OF e0 e1] have dep1: "\<And>k. dep_of tasks1 k = dep_of tasks k"
    by (rule evolves_dep_of)
  have same1: "\<forall>y. (y, True) \<notin> set log1 \<longrightarrow> get_task tasks1 y = get_task ?t0 y"
    using moved.hyps(3) by (simp add: walk_changed_logged)
  have same2: "\<forall>y. (y, True) \<notin> set log2 \<longrightarrow> get_task tasks' y = get_task tasks1 y"
    using moved.hyps(4) by (simp add: walk_changed_logged)
  from moved.IH(1) w0 have f1: "followers_ok tasks1 f"
    and rest1: "\<forall>y. (y, True) \<in> set log1 \<longrightarrow> followers_ok tasks1 y" by simp_all
  show ?case
  proof (intro allI impI)
    fix x
    assume x: "\<forall>f \<in> set (f # fs). dep_of tasks f = Some x"
    then have "\<forall>f \<in> set fs. dep_of tasks1 f = Some x" by (simp add: dep1)
    with moved.IH(2) w1 have ok2: "\<forall>f \<in> set fs. dependency_ok tasks' f"
      and rest2: "\<forall>y. (y, True) \<in> set log2 \<longrightarrow> followers_ok tasks' y" by auto
    from x have xf: "dep_of tasks f = Some x" by simp
    have okf1: "dependency_ok tasks1 f"
    proof (cases "x = f")
      case True
      with xf f1 show ?thesis by (auto simp: dep1 intro: followers_ok_dependency_ok)
    next
      case False
      with moved.hyps(1,2) xf have o: "dependency_ok ?t0 f" by (simp add: moved_dependency_ok)
      from xf have "dep_of ?t0 f = Some x" by (simp add: dep0)
      with o show ?thesis by (rule settled_dependency_ok [OF e1 same1 rest1])
    qed
    from xf have "dep_of tasks1 f = Some x" by (simp add: dep1)
    with okf1 have okf: "dependency_ok tasks' f"
      by (rule settled_dependency_ok [OF e2 same2 rest2])
    have "followers_ok tasks' y" if "(y, True) \<in> set ((f, True) # log1 @ log2)" for y
    proof -
      from that consider "(y, True) \<in> set log2" | "y = f" | "(y, True) \<in> set log1" by auto
      then show ?thesis
      proof cases
        case 1
        with rest2 show ?thesis by simp
      next
        case 2
        with f1 have "followers_ok tasks1 y" by simp
        then show ?thesis by (rule settled_followers_ok [OF e2 same2 rest2])
      next
        case 3
        with rest1 have "followers_ok tasks1 y" by simp
        then show ?thesis by (rule settled_followers_ok [OF e2 same2 rest2])
      qed
    qed
    with ok2 okf show "(\<forall>f \<in> set (f # fs). dependency_ok tasks' f)
        \<and> (\<forall>y. (y, True) \<in> set ((f, True) # log1 @ log2) \<longrightarrow> followers_ok tasks' y)"
      by simp
  qed
qed

section \<open>Forests\<close>

lemma rooted_mono: "rooted n tasks i \<Longrightarrow> n \<le> m \<Longrightarrow> rooted m tasks i"
proof (induction n arbitrary: m i)
  case 0
  then show ?case by simp
next
  case (Suc n)
  from Suc.prems(2) obtain m' where m: "m = Suc m'" "n \<le> m'" by (cases m) auto
  with Suc show ?case by (auto split: option.splits)
qed

lemma rooted_follower:
  "dep_of tasks f = Some x \<Longrightarrow> rooted (Suc j) tasks f = rooted j tasks x"
  by (auto simp: dep_of_def split: option.splits)

lemma reachable_rooted:
  "reachable tasks r i \<Longrightarrow> rooted n tasks i \<Longrightarrow> \<exists>m<n. rooted m tasks r"
proof (induction arbitrary: n rule: reachable_dep_of_induct)
  case (direct i)
  then show ?case by (cases n) (auto simp: rooted_follower simp del: rooted.simps(2))
next
  case (step j i)
  from step.prems step.hyps(2) obtain n' where n: "n = Suc n'" "rooted n' tasks j"
    by (cases n) (auto simp: rooted_follower simp del: rooted.simps(2))
  from step.IH [OF n(2)] obtain m where "m < n'" "rooted m tasks r" by blast
  with n(1) have "m < n \<and> rooted m tasks r" by simp
  then show ?case by blast
qed

lemma rooted_acyclic: "rooted n tasks y \<Longrightarrow> \<not> reachable tasks y y"
proof (induction n rule: less_induct)
  case (less n)
  show ?case
  proof
    assume r: "reachable tasks y y"
    from reachable_rooted [OF r less.prems] obtain m where "m < n" "rooted m tasks y" by blast
    with less.IH r show False by blast
  qed
qed

lemma reachable_exists: "reachable tasks r i \<Longrightarrow> get_task tasks i \<noteq> None"
  by (induction rule: reachable.induct) auto

lemma forest_rooted:
  "forest tasks \<Longrightarrow> get_task tasks y = Some t \<Longrightarrow> rooted (Suc (length tasks)) tasks y"
  using get_task_mem [of tasks y t] get_task_id [of tasks y t] by (auto simp: forest_def)

lemma forest_acyclic: "forest tasks \<Longrightarrow> \<not> reachable tasks y y"
proof
  assume f: "forest tasks" and r: "reachable tasks y y"
  from reachable_exists [OF r] obtain t where "get_task tasks y = Some t" by auto
  with f have "rooted (Suc (length tasks)) tasks y" by (rule forest_rooted)
  with r rooted_acyclic show False by blast
qed

lemma forest_wf: "forest tasks \<Longrightarrow> wf_db tasks"
  by (simp add: forest_def)

text \<open>
  On a forest whose dates fit, the end date of every task stays below its latest
  end date while the walk moves tasks, so the Adjustment Rule never leaves the
  calendar.
\<close>

lemma latest_end_lower:
  assumes "rooted k tasks i" and "get_task tasks i = Some t"
  shows "end_date t \<le> latest_end k tasks i"
proof (cases k)
  case 0
  with assms(1) show ?thesis by simp
next
  case (Suc k')
  with assms(2) show ?thesis by (simp add: end_date_def split: option.splits)
qed

lemma within_refl: "within tasks tasks"
  by (simp add: within_def evolves_refl latest_end_lower)

lemma within_evolves: "within base tasks \<Longrightarrow> evolves base tasks"
  by (simp add: within_def)

lemma within_moved:
  assumes "within base ts" and "distinct (map task_id base)" and "get_task ts f = Some t"
    and "adjust_start_date_based_on_dependency ts t = Inr (t', True)"
  shows "within base (save_task ts t')"
proof -
  from assms(1) have e: "evolves base ts" by (rule within_evolves)
  with assms(2) have d: "distinct (map task_id ts)" by (simp add: evolves_distinct)
  from d assms(3,4) have e0: "evolves ts (save_task ts t')" by (rule moved_step_evolves)
  from assms(4) obtain x p where xp: "dependency_id t = Some x" "get_task ts x = Some p"
    "t' = t\<lparr>start_date := end_date p\<rparr>"
    by (rule adjust_moved)
  from assms(3,4) have l: "\<And>y. get_task (save_task ts t') y
      = (if y = f then Some t' else get_task ts y)" by (rule moved_step_lookup)
  from evolves_get_task_back [OF e assms(3)] obtain t0 where
    t0: "get_task base f = Some t0" "advanced t0 t" by blast
  from evolves_get_task_back [OF e xp(2)] obtain p0 where
    p0: "get_task base x = Some p0" by blast
  from t0(2) xp(1) have dt0: "dependency_id t0 = Some x" by (simp add: advanced_fields(2))
  from t0(2) have du0: "duration_days t0 = duration_days t" by (simp add: advanced_fields(3))
  have "end_date u \<le> latest_end k base i"
    if "rooted k base i" and "get_task (save_task ts t') i = Some u" for k i u
  proof (cases "i = f")
    case False
    with that l assms(1) show ?thesis by (auto simp: within_def)
  next
    case True
    with that(2) l have u: "u = t'" by simp
    from that(1) True obtain k' where k: "k = Suc k'" by (cases k) auto
    with that(1) True t0(1) dt0 have "rooted k' base x" by simp
    with assms(1) xp(2) have "end_date p \<le> latest_end k' base x" by (auto simp: within_def)
    moreover from xp(3) have "end_date t' = end_date p + duration_days t"
      by (simp add: end_date_def)
    moreover from t0(1) dt0 p0 du0
    have "latest_end (Suc k') base f = max (start_date t0) (latest_end k' base x) + duration_days t"
      by simp
    ultimately show ?thesis using u k True by simp
  qed
  with evolves_trans [OF e e0] show ?thesis by (auto simp: within_def)
qed

lemma walk_within:
  "walk tasks i tasks' log \<Longrightarrow> distinct (map task_id base) \<Longrightarrow> within base tasks \<Longrightarrow>
     within base tasks'"
  "walk_followers tasks fs tasks' log \<Longrightarrow> distinct (map task_id base) \<Longrightarrow>
     within base tasks \<Longrightarrow> within base tasks'"
proof (induction rule: walk_walk_followers.inducts)
  case (moved tasks f t t' tasks1 log1 fs tasks' log2)
  from moved.prems(2,1) moved.hyps(1,2) have "within base (save_task tasks t')"
    by (rule within_moved)
  with moved.IH moved.prems(1) show ?case by simp
qed simp_all

lemma within_in_calendar:
  assumes "forest base" and "dates_fit base" and "within base ts" and "get_task ts x = Some p"
  shows "in_calendar p"
proof -
  from assms(3) have e: "evolves base ts" by (rule within_evolves)
  from evolves_get_task_back [OF e assms(4)] obtain p0 where
    p0: "get_task base x = Some p0" "advanced p0 p" by blast
  from p0(1) have m: "p0 \<in> set base" and i: "task_id p0 = x"
    by (simp_all add: get_task_mem get_task_id)
  from assms(2) m i have fit: "\<bar>duration_days p0\<bar> \<le> 999999999" "date_min \<le> end_date p0"
    "latest_end (Suc (length base)) base x \<le> date_max"
    by (auto simp: dates_fit_def)
  from assms(1) p0(1) have "rooted (Suc (length base)) base x" by (rule forest_rooted)
  with assms(3,4) have "end_date p \<le> latest_end (Suc (length base)) base x"
    unfolding within_def by blast
  with fit(3) have "end_date p \<le> date_max" by simp
  moreover from p0(2) have "end_date p0 \<le> end_date p" by (rule advanced_end_date)
  moreover from p0(2) have "duration_days p = duration_days p0" by (rule advanced_fields(3))
  ultimately show ?thesis using fit(1,2) by (simp add: in_calendar_def)
qed

lemma adjust_returns:
  assumes "\<forall>d p. dependency_id t = Some d \<and> d \<noteq> 0 \<and> get_task tasks d = Some p \<longrightarrow> in_calendar p"
  shows "\<exists>t' m. adjust_start_date_based_on_dependency tasks t = Inr (t', m)"
proof (cases "dependency_id t")
  case None
  then show ?thesis by (auto simp: adjust_start_date_based_on_dependency_def)
next
  case (Some d)
  show ?thesis
  proof (cases "d = 0 \<or> get_task tasks d = None")
    case True
    with Some show ?thesis by (auto simp: adjust_start_date_based_on_dependency_def)
  next
    case False
    then obtain p where p: "d \<noteq> 0" "get_task tasks d = Some p" by auto
    with assms Some have "in_calendar p" by blast
    with adjust_present [OF Some p] show ?thesis by auto
  qed
qed

text \<open>
  In a forest whose dates fit the walk returns when it may nest deeply enough: a
  task that is at least \<open>j\<close> references away from the top of its tree needs no
  more nested calls than there are rows left below that depth.
\<close>

lemma cascade_returns_depth:
  assumes "forest base" and "dates_fit base"
  shows "within base tasks \<Longrightarrow> \<not> rooted j tasks i \<Longrightarrow> length tasks < j + n \<Longrightarrow>
     \<exists>res. cascade_updates n tasks i = Inr res"
proof (induction n arbitrary: tasks i j)
  case 0
  from 0(1) have "evolves base tasks" by (rule within_evolves)
  then have f: "forest tasks" using assms(1) by (rule evolves_forest)
  show ?case
  proof (cases "get_task tasks i")
    case None
    from 0 obtain j' where "j = Suc j'" by (cases j) auto
    with None 0 show ?thesis by simp
  next
    case (Some t)
    with f have "rooted (Suc (length tasks)) tasks i" by (simp add: forest_rooted del: rooted.simps)
    with 0 rooted_mono [of "Suc (length tasks)" tasks i j] show ?thesis by simp
  qed
next
  case (Suc n)
  from assms(1) have db: "distinct (map task_id base)" by (simp add: forest_wf wf_db_distinct)
  from Suc.prems(1) have "evolves base tasks" by (rule within_evolves)
  then have f: "forest tasks" using assms(1) by (rule evolves_forest)
  have loop: "\<exists>res. cascade_followers n ts fs = Inr res"
    if "within base ts" and "evolves tasks ts" and "\<forall>f \<in> set fs. dep_of ts f = Some i" for ts fs
    using that
  proof (induction fs arbitrary: ts)
    case Nil
    show ?case by simp
  next
    case (Cons f fs)
    from Cons.prems(2) f have fts: "forest ts" by (rule evolves_forest)
    from Cons.prems(3) obtain t where t: "get_task ts f = Some t"
      by (auto simp: dep_of_def split: option.splits)
    from Cons.prems(3) have rest: "\<forall>f \<in> set fs. dep_of ts f = Some i" by simp
    have "\<forall>d p. dependency_id t = Some d \<and> d \<noteq> 0 \<and> get_task ts d = Some p \<longrightarrow> in_calendar p"
      using within_in_calendar [OF assms Cons.prems(1)] by blast
    then obtain t' m where a: "adjust_start_date_based_on_dependency ts t = Inr (t', m)"
      using adjust_returns by blast
    show ?case
    proof (cases m)
      case False
      from Cons.IH [OF Cons.prems(1,2) rest] obtain res where
        "cascade_followers n ts fs = Inr res" by blast
      with t a False show ?thesis by (cases res) simp
    next
      case True
      let ?t0 = "save_task ts t'"
      from fts have d: "distinct (map task_id ts)"
        by (simp add: forest_wf wf_db_distinct)
      from d t a True have e0: "evolves ts ?t0" by (simp add: moved_step_evolves)
      with fts have f0: "forest ?t0" by (simp add: evolves_forest)
      from Cons.prems(1) db t a True have w0: "within base ?t0" by (simp add: within_moved)
      from Cons.prems(3) have "dep_of ts f = Some i" by simp
      then have "rooted (Suc j) ts f = rooted j ts i" by (rule rooted_follower)
      also from Cons.prems(2) have "\<dots> = rooted j tasks i" by (rule evolves_rooted)
      finally have "\<not> rooted (Suc j) ts f" using Suc.prems(2) by simp
      with e0 have nr: "\<not> rooted (Suc j) ?t0 f" by (simp add: evolves_rooted del: rooted.simps)
      from Suc.prems(3) Cons.prems(2) e0 have "length ?t0 < Suc j + n"
        by (simp add: evolves_length)
      with Suc.IH [OF w0 nr] obtain tasks1 log1 where
        r1: "cascade_updates n ?t0 f = Inr (tasks1, log1)" by fastforce
      then have w: "walk ?t0 f tasks1 log1" by (rule cascade_walk)
      with f0 have e1: "evolves ?t0 tasks1"
        by (simp add: walk_evolves forest_wf wf_db_distinct)
      from w db w0 have w1: "within base tasks1" by (rule walk_within)
      from Cons.prems(2) e0 e1 have e: "evolves tasks tasks1" by (blast intro: evolves_trans)
      from rest e0 e1 have "\<forall>f \<in> set fs. dep_of tasks1 f = Some i"
        by (simp add: evolves_dep_of)
      from Cons.IH [OF w1 e this] obtain res where "cascade_followers n tasks1 fs = Inr res"
        by blast
      with t a True r1 show ?thesis by (cases res) simp
    qed
  qed
  show ?case
  proof (cases "get_task tasks i")
    case None
    then show ?thesis by simp
  next
    case (Some t)
    then have "task_id t = i" by (rule get_task_id)
    moreover from f have "\<forall>f \<in> set (map task_id (followers_of tasks i)).
        dep_of tasks f = Some i"
      using followers_dep_of [of tasks _ i] by (simp add: forest_wf wf_db_distinct)
    ultimately show ?thesis
      using Some loop [OF Suc.prems(1) evolves_refl] by simp
  qed
qed

lemma forest_cascade_returns:
  "forest tasks \<Longrightarrow> dates_fit tasks \<Longrightarrow> length tasks < n \<Longrightarrow>
     \<exists>tasks' log. cascade_updates n tasks r = Inr (tasks', log)"
  using cascade_returns_depth [of tasks tasks 0 r n] by (auto simp: within_refl)

lemma reachable_cases_dep_of:
  assumes "reachable tasks r i"
  shows "dep_of tasks i = Some r \<or> (\<exists>j. reachable tasks r j \<and> dep_of tasks i = Some j)"
  using assms by (cases rule: reachable.cases) (auto simp: dep_of_def)

text \<open>A task has one predecessor, so its ancestors lie on one chain.\<close>

lemma ancestors_chain:
  "reachable tasks a y \<Longrightarrow> reachable tasks b y \<Longrightarrow>
     a = b \<or> reachable tasks a b \<or> reachable tasks b a"
proof (induction rule: reachable_dep_of_induct)
  case (direct i)
  from reachable_cases_dep_of [OF direct.prems] direct.hyps show ?case by auto
next
  case (step j i)
  from reachable_cases_dep_of [OF step.prems] step.hyps(2) step.IH step.hyps(1)
  show ?case by auto
qed

lemma siblings_apart:
  assumes "forest tasks" and "dep_of tasks f = Some x" and "dep_of tasks f' = Some x"
  shows "\<not> reachable tasks f f'"
proof
  assume "reachable tasks f f'"
  from reachable_cases_dep_of [OF this] assms(3) have "x = f \<or> reachable tasks f x" by auto
  then have "reachable tasks f f"
  proof
    assume "x = f"
    with assms(2) show ?thesis by (simp add: reachable_direct)
  next
    assume "reachable tasks f x"
    then show ?thesis using assms(2) by (rule reachable_step)
  qed
  with assms(1) show False by (simp add: forest_acyclic)
qed

lemma subtrees_apart:
  assumes "forest tasks" and "dep_of tasks f = Some x" and "dep_of tasks f' = Some x"
    and "f \<noteq> f'" and "y = f \<or> reachable tasks f y" and "y = f' \<or> reachable tasks f' y"
  shows False
proof -
  from assms(1-3) have n1: "\<not> reachable tasks f f'" by (rule siblings_apart)
  from assms(1,3,2) have n2: "\<not> reachable tasks f' f" by (rule siblings_apart)
  from assms(5,6) consider "y = f" "y = f'" | "y = f" "reachable tasks f' y"
    | "reachable tasks f y" "y = f'" | "reachable tasks f y" "reachable tasks f' y" by blast
  then show False
  proof cases
    case 4
    from ancestors_chain [OF 4] assms(4) n1 n2 show False by blast
  qed (use assms(4) n1 n2 in auto)
qed

lemma followers_distinct:
  "distinct (map task_id tasks) \<Longrightarrow> distinct (map task_id (followers_of tasks i))"
  by (simp add: followers_of_def distinct_map_filter)

text \<open>In a forest the walk applies the Adjustment Rule to a task at most once.\<close>

lemma walk_log_distinct:
  "walk tasks i tasks' log \<Longrightarrow> forest tasks \<Longrightarrow> distinct (map fst log)"
  "walk_followers tasks fs tasks' log \<Longrightarrow> forest tasks \<Longrightarrow>
     \<forall>x. distinct fs \<and> (\<forall>f \<in> set fs. dep_of tasks f = Some x) \<longrightarrow>
       distinct (map fst log)
       \<and> (\<forall>e \<in> set log. fst e \<in> set fs \<or> (\<exists>f \<in> set fs. reachable tasks f (fst e)))"
proof (induction rule: walk_walk_followers.inducts)
  case (absent tasks i)
  show ?case by simp
next
  case (present tasks i t tasks' log)
  from present.prems have d: "distinct (map task_id tasks)" by (simp add: forest_wf wf_db_distinct)
  from present.hyps(1) have i: "task_id t = i" by (rule get_task_id)
  from d have "distinct (map task_id (followers_of tasks (task_id t)))"
    by (rule followers_distinct)
  moreover from d i have "\<forall>f \<in> set (map task_id (followers_of tasks (task_id t))).
      dep_of tasks f = Some i"
    using followers_dep_of [of tasks _ i] by blast
  ultimately show ?case using present.IH present.prems by blast
next
  case (finished tasks)
  show ?case by simp
next
  case (skipped tasks f fs tasks' log)
  then show ?case by (auto simp: dep_of_def)
next
  case (unmoved tasks f t t' fs tasks' log)
  show ?case
  proof (intro allI impI)
    fix x
    assume x: "distinct (f # fs) \<and> (\<forall>f \<in> set (f # fs). dep_of tasks f = Some x)"
    with unmoved.IH unmoved.prems have dl: "distinct (map fst log)"
      and el: "\<forall>e \<in> set log. fst e \<in> set fs \<or> (\<exists>f' \<in> set fs. reachable tasks f' (fst e))"
      by auto
    have "f \<notin> fst ` set log"
    proof
      assume "f \<in> fst ` set log"
      with el have "f \<in> set fs \<or> (\<exists>f' \<in> set fs. reachable tasks f' f)" by auto
      with x obtain f' where "f' \<in> set fs" "reachable tasks f' f" by auto
      with x siblings_apart [OF unmoved.prems, of f' x f] show False by auto
    qed
    with dl el show "distinct (map fst ((f, False) # log))
        \<and> (\<forall>e \<in> set ((f, False) # log).
              fst e \<in> set (f # fs) \<or> (\<exists>f' \<in> set (f # fs). reachable tasks f' (fst e)))"
      by auto
  qed
next
  case (moved tasks f t t' tasks1 log1 fs tasks' log2)
  let ?t0 = "save_task tasks t'"
  from moved.prems have d: "distinct (map task_id tasks)" by (simp add: forest_wf wf_db_distinct)
  from d moved.hyps(1,2) have e0: "evolves tasks ?t0" by (rule moved_step_evolves)
  with moved.prems have f0: "forest ?t0" by (simp add: evolves_forest)
  then have d0: "distinct (map task_id ?t0)" by (simp add: forest_wf wf_db_distinct)
  with moved.hyps(3) have e1: "evolves ?t0 tasks1" by (simp add: walk_evolves)
  with f0 have f1: "forest tasks1" by (simp add: evolves_forest)
  from evolves_trans [OF e0 e1] have e01: "evolves tasks tasks1" .
  from moved.IH(1) f0 have dl1: "distinct (map fst log1)" by simp
  from walk_log_reachable(1) [OF moved.hyps(3) d0] e0
  have r1: "\<forall>e \<in> set log1. reachable tasks f (fst e)" by (simp add: evolves_reachable)
  show ?case
  proof (intro allI impI)
    fix x
    assume x: "distinct (f # fs) \<and> (\<forall>f \<in> set (f # fs). dep_of tasks f = Some x)"
    then have xf: "dep_of tasks f = Some x" by simp
    from x e01 have "distinct fs \<and> (\<forall>f \<in> set fs. dep_of tasks1 f = Some x)"
      by (simp add: evolves_dep_of)
    with moved.IH(2) f1 have dl2: "distinct (map fst log2)"
      and el2: "\<forall>e \<in> set log2. fst e \<in> set fs \<or> (\<exists>f' \<in> set fs. reachable tasks1 f' (fst e))"
      by auto
    from el2 e01 have r2: "\<forall>e \<in> set log2. \<exists>f' \<in> set fs. fst e = f' \<or> reachable tasks f' (fst e)"
      by (auto simp: evolves_reachable)
    have n1: "f \<notin> fst ` set log1"
      using r1 forest_acyclic [OF moved.prems, of f] by auto
    have n2: "f \<notin> fst ` set log2"
    proof
      assume "f \<in> fst ` set log2"
      with r2 obtain f' where "f' \<in> set fs" "f = f' \<or> reachable tasks f' f" by auto
      with x siblings_apart [OF moved.prems, of f' x f] show False by auto
    qed
    have n12: "fst ` set log1 \<inter> fst ` set log2 = {}"
    proof (rule ccontr)
      assume "fst ` set log1 \<inter> fst ` set log2 \<noteq> {}"
      then obtain y where y1: "y \<in> fst ` set log1" and y2: "y \<in> fst ` set log2" by auto
      from y1 r1 have a: "y = f \<or> reachable tasks f y" by auto
      from y2 r2 obtain f' where f': "f' \<in> set fs" "y = f' \<or> reachable tasks f' y" by auto
      from f'(1) x have "dep_of tasks f' = Some x" "f \<noteq> f'" by auto
      from subtrees_apart [OF moved.prems xf this a f'(2)] show False .
    qed
    from dl1 dl2 n1 n2 n12 have "distinct (map fst ((f, True) # log1 @ log2))" by auto
    moreover have "\<forall>e \<in> set ((f, True) # log1 @ log2).
        fst e \<in> set (f # fs) \<or> (\<exists>f' \<in> set (f # fs). reachable tasks f' (fst e))"
      using r1 r2 by auto
    ultimately show "distinct (map fst ((f, True) # log1 @ log2))
        \<and> (\<forall>e \<in> set ((f, True) # log1 @ log2).
              fst e \<in> set (f # fs) \<or> (\<exists>f' \<in> set (f # fs). reachable tasks f' (fst e)))"
      by simp
  qed
qed

text \<open>
  In a forest, below a task the walk examined and did not move, no task appears
  in the log.
\<close>

lemma walk_pruned:
  assumes "forest tasks" and "walk tasks r tasks' log" and "(f, False) \<in> set log"
    and "reachable tasks f g"
  shows "g \<notin> fst ` set log"
  using assms(4)
proof (induction rule: reachable_dep_of_induct)
  case (direct g)
  from assms(1) have d: "distinct (map task_id tasks)" by (simp add: forest_wf wf_db_distinct)
  from walk_log_distinct(1) [OF assms(2,1)] have dl: "distinct (map fst log)" .
  from walk_log_reachable(1) [OF assms(2) d] assms(3) have rf: "reachable tasks r f" by auto
  show ?case
  proof
    assume "g \<in> fst ` set log"
    with walk_log_parent(1) [OF assms(2) d] obtain dg where
      "dep_of tasks g = Some dg" "dg = r \<or> (dg, True) \<in> set log" by auto
    with direct.hyps have "f = r \<or> (f, True) \<in> set log" by simp
    then show False
    proof
      assume "f = r"
      with rf assms(1) show False by (simp add: forest_acyclic)
    next
      assume "(f, True) \<in> set log"
      with assms(3) dl show False by (auto dest: eq_key_imp_eq_value)
    qed
  qed
next
  case (step j g)
  from assms(1) have d: "distinct (map task_id tasks)" by (simp add: forest_wf wf_db_distinct)
  from walk_log_reachable(1) [OF assms(2) d] assms(3) have rf: "reachable tasks r f" by auto
  show ?case
  proof
    assume "g \<in> fst ` set log"
    with walk_log_parent(1) [OF assms(2) d] obtain dg where
      "dep_of tasks g = Some dg" "dg = r \<or> (dg, True) \<in> set log" by auto
    with step.hyps(2) have "j = r \<or> (j, True) \<in> set log" by simp
    then show False
    proof
      assume "j = r"
      with step.hyps(1) rf have "reachable tasks f f" by (auto intro: reachable_trans)
      with assms(1) show False by (simp add: forest_acyclic)
    next
      assume "(j, True) \<in> set log"
      then have "j \<in> fst ` set log" by force
      with step.IH show False by simp
    qed
  qed
qed

lemma not_rooted_dep:
  "\<not> rooted (Suc k) tasks i \<Longrightarrow> \<exists>d. dep_of tasks i = Some d \<and> \<not> rooted k tasks d"
  by (auto simp: dep_of_def split: option.splits)

lemma not_rooted_ancestor:
  "\<not> rooted (Suc k) tasks i \<Longrightarrow> j \<le> k \<Longrightarrow> \<exists>c. ancestor j tasks i = Some c"
proof (induction k arbitrary: i j)
  case 0
  then show ?case by (auto simp: dep_of_def split: option.splits)
next
  case (Suc k)
  show ?case
  proof (cases j)
    case 0
    with Suc.prems(1) show ?thesis by (auto split: option.splits)
  next
    case (Suc j')
    from not_rooted_dep [OF Suc.prems(1)] obtain d where
      d: "dep_of tasks i = Some d" "\<not> rooted (Suc k) tasks d" by blast
    from Suc.prems(2) Suc have "j' \<le> k" by simp
    from Suc.IH [OF d(2) this] d(1) Suc show ?thesis by simp
  qed
qed

lemma ancestor_exists: "ancestor j tasks i = Some c \<Longrightarrow> get_task tasks c \<noteq> None"
  by (induction j arbitrary: i) (auto split: option.splits if_splits)

lemma ancestor_add:
  "ancestor (a + m) tasks i
     = (case ancestor a tasks i of None \<Rightarrow> None | Some c \<Rightarrow> ancestor m tasks c)"
proof (induction a arbitrary: i)
  case 0
  show ?case
  proof (cases "get_task tasks i")
    case None
    then show ?thesis by (cases m) (simp_all add: dep_of_def)
  next
    case (Some t)
    then show ?thesis by simp
  qed
next
  case (Suc a)
  then show ?case by (simp split: option.splits)
qed

lemma ancestor_reachable:
  "ancestor (Suc m) tasks c = Some c' \<Longrightarrow> reachable tasks c' c"
proof (induction m arbitrary: c')
  case 0
  then show ?case by (auto split: option.splits if_splits intro: reachable_direct)
next
  case (Suc m)
  from ancestor_add [of "Suc m" "Suc 0" tasks c] Suc.prems
  obtain b where b: "ancestor (Suc m) tasks c = Some b" "ancestor (Suc 0) tasks b = Some c'"
    by (auto split: option.splits)
  from Suc.IH [OF b(1)] have "reachable tasks b c" .
  moreover from b(2) have "reachable tasks c' b"
    by (auto split: option.splits if_splits intro: reachable_direct)
  ultimately show ?case by (rule reachable_trans)
qed

lemma ancestors_apart:
  assumes "\<forall>y. \<not> reachable tasks y y" and "p < q"
    and "ancestor p tasks i = Some a" and "ancestor q tasks i = Some b"
  shows "a \<noteq> b"
proof
  assume e: "a = b"
  from less_imp_Suc_add [OF assms(2)] obtain m where m: "q = p + Suc m" by auto
  from assms(4) have "ancestor (p + Suc m) tasks i = Some b" unfolding m .
  then have "ancestor (Suc m) tasks a = Some b"
    unfolding ancestor_add [of p "Suc m" tasks i] assms(3) by (simp del: ancestor.simps)
  then have "reachable tasks b a" by (rule ancestor_reachable)
  with e assms(1) show False by simp
qed

text \<open>
  A table with unique non-zero keys is a forest exactly when no task is reachable
  from itself.
\<close>

lemma forest_iff_acyclic:
  "forest tasks \<longleftrightarrow> wf_db tasks \<and> (\<forall>y. \<not> reachable tasks y y)"
proof
  assume "forest tasks"
  then show "wf_db tasks \<and> (\<forall>y. \<not> reachable tasks y y)"
    by (simp add: forest_wf forest_acyclic)
next
  assume a: "wf_db tasks \<and> (\<forall>y. \<not> reachable tasks y y)"
  have "rooted (Suc (length tasks)) tasks i" for i
  proof (rule ccontr)
    assume n: "\<not> rooted (Suc (length tasks)) tasks i"
    define anc where "anc j = the (ancestor j tasks i)" for j
    have some: "ancestor j tasks i = Some (anc j)" if "j \<le> length tasks" for j
    proof -
      from not_rooted_ancestor [OF n that] obtain c where "ancestor j tasks i = Some c" by blast
      then show ?thesis by (simp add: anc_def)
    qed
    have apart: "anc p \<noteq> anc q" if "p < q" and "q \<le> length tasks" for p q
    proof -
      from that have "p \<le> length tasks" by simp
      then have "ancestor p tasks i = Some (anc p)" by (rule some)
      moreover from that(2) have "ancestor q tasks i = Some (anc q)" by (rule some)
      ultimately show ?thesis using a that(1) ancestors_apart by blast
    qed
    have inj: "inj_on anc {0..length tasks}"
    proof (rule inj_onI)
      fix x y
      assume x: "x \<in> {0..length tasks}" and y: "y \<in> {0..length tasks}" and e: "anc x = anc y"
      show "x = y"
      proof (rule ccontr)
        assume "x \<noteq> y"
        then consider "x < y" | "y < x" by linarith
        then show False
        proof cases
          case 1
          with y apart [of x y] e show False by simp
        next
          case 2
          with x apart [of y x] e show False by simp
        qed
      qed
    qed
    have sub: "anc ` {0..length tasks} \<subseteq> task_id ` set tasks"
    proof
      fix c
      assume "c \<in> anc ` {0..length tasks}"
      then obtain j where "j \<le> length tasks" "c = anc j" by auto
      with some [of j] have "ancestor j tasks i = Some c" by simp
      then have "get_task tasks c \<noteq> None" by (rule ancestor_exists)
      then show "c \<in> task_id ` set tasks" by (simp add: get_task_None_iff)
    qed
    have "card {0..length tasks} \<le> card (task_id ` set tasks)"
      using inj sub by (rule card_inj_on_le) simp
    also have "\<dots> \<le> card (set tasks)" by (simp add: card_image_le)
    also have "\<dots> \<le> length tasks" by (rule card_length)
    finally show False by simp
  qed
  with a show "forest tasks" by (simp add: forest_def del: rooted.simps)
qed

section \<open>What a returning cascade determines\<close>

lemma moved_step_chain_below:
  assumes "chain_below S bound tasks" and "get_task tasks f = Some t"
    and "adjust_start_date_based_on_dependency tasks t = Inr (t', True)"
  shows "chain_below S bound (save_task tasks t')"
  unfolding chain_below_def
proof
  fix y
  assume y: "y \<in> S"
  let ?t0 = "save_task tasks t'"
  from assms(3) obtain d p where dp: "dependency_id t = Some d" "get_task tasks d = Some p"
    "t' = t\<lparr>start_date := end_date p\<rparr>"
    by (rule adjust_moved)
  from assms(2,3) have l: "\<And>k. get_task ?t0 k = (if k = f then Some t' else get_task tasks k)"
    by (rule moved_step_lookup)
  from dp(1,3) have dt': "dependency_id t' = Some d" by simp
  from dp(3) have du': "duration_days t' = duration_days t" by simp
  from y assms(1) obtain ty dy py where ty: "get_task tasks y = Some ty"
    "dependency_id ty = Some dy" "dy \<in> S" "get_task tasks dy = Some py"
    "bound y = bound dy + duration_days py" "start_date ty < bound y"
    unfolding chain_below_def by blast
  from ty(3) assms(1) obtain tdy where tdy: "get_task tasks dy = Some tdy"
    "start_date tdy < bound dy"
    unfolding chain_below_def by blast
  obtain py' where py': "get_task ?t0 dy = Some py'" "duration_days py' = duration_days py"
  proof (cases "dy = f")
    case True
    with ty(4) assms(2) have "py = t" by simp
    with True du' l that show ?thesis by simp
  next
    case False
    with ty(4) l that show ?thesis by simp
  qed
  show "\<exists>t d p. get_task ?t0 y = Some t \<and> dependency_id t = Some d \<and> d \<in> S
        \<and> get_task ?t0 d = Some p \<and> bound y = bound d + duration_days p
        \<and> start_date t < bound y"
  proof (cases "y = f")
    case False
    with l ty py' show ?thesis by simp
  next
    case True
    with ty(1,2) assms(2) dp(1) have same: "ty = t" "dy = d" by simp_all
    with ty(4) dp(2) tdy have "py = p" "start_date p < bound d" by simp_all
    with dp(3) ty(5) same have "start_date t' < bound y" by (simp add: end_date_def)
    with True l dt' py' ty(3,5) same show ?thesis by simp
  qed
qed

lemma walk_chain_below:
  "walk tasks i tasks' log \<Longrightarrow> chain_below S bound tasks \<Longrightarrow> chain_below S bound tasks'"
  "walk_followers tasks fs tasks' log \<Longrightarrow> chain_below S bound tasks \<Longrightarrow>
     chain_below S bound tasks'"
proof (induction rule: walk_walk_followers.inducts)
  case (moved tasks f t t' tasks1 log1 fs tasks' log2)
  from moved.prems moved.hyps(1,2) have "chain_below S bound (save_task tasks t')"
    by (rule moved_step_chain_below)
  with moved.IH show ?case by simp
qed simp_all

text \<open>A walk that returns has not changed the row of its root.\<close>

lemma walk_root_unchanged:
  assumes "wf_db tasks" and "walk tasks r tasks' log"
  shows "get_task tasks' r = get_task tasks r"
proof (rule ccontr)
  assume changed: "get_task tasks' r \<noteq> get_task tasks r"
  from assms(1) have d: "distinct (map task_id tasks)" by (rule wf_db_distinct)
  from assms(2) d have e: "evolves tasks tasks'" by (rule walk_evolves)
  define S where "S = {y. (y, True) \<in> set log}"
  define bound where "bound y = start_date (the (get_task tasks' y))" for y
  from changed assms(2) have r: "r \<in> S"
    using walk_changed_logged(1) [of tasks r tasks' log r] by (auto simp: S_def)
  have "chain_below S bound tasks"
    unfolding chain_below_def
  proof
    fix y
    assume "y \<in> S"
    then have y: "(y, True) \<in> set log" by (simp add: S_def)
    from walk_moved_forward(1) [OF assms(2) d y] obtain t t' where
      t: "get_task tasks y = Some t" "get_task tasks' y = Some t'" "start_date t < start_date t'"
      by (auto simp: moved_forward_def)
    from walk_log_parent(1) [OF assms(2) d] y obtain dy where
      dy: "dep_of tasks y = Some dy" "dy = r \<or> (dy, True) \<in> set log" by fastforce
    with r have dyS: "dy \<in> S" by (auto simp: S_def)
    from dy(1) t(1) have dt: "dependency_id t = Some dy" by (simp add: dep_of_def)
    from e dy(1) have dy': "dep_of tasks' y = Some dy" by (simp add: evolves_dep_of)
    with t(2) have dt': "dependency_id t' = Some dy" by (simp add: dep_of_def)
    from walk_moved_at_most_end(1) [OF assms(2) d y] t(2) dt' obtain p' where
      p': "get_task tasks' dy = Some p'" "start_date t' \<le> end_date p'"
      by (auto simp: at_most_end_def)
    from walk_followers_ok(1) [OF assms(2,1)] dy(2) have "followers_ok tasks' dy" by auto
    then have "dependency_ok tasks' y" using dy' by (rule followers_ok_dependency_ok)
    with t(2) dt' p'(1) have "end_date p' \<le> start_date t'" by (simp add: dependency_ok_def)
    with p'(2) have tight: "start_date t' = start_date p' + duration_days p'"
      by (simp add: end_date_def)
    from evolves_get_task_back [OF e p'(1)] obtain p where
      p: "get_task tasks dy = Some p" "advanced p p'" by blast
    from p(2) have "duration_days p' = duration_days p" by (rule advanced_fields(3))
    with tight t(2) p'(1) have "bound y = bound dy + duration_days p" by (simp add: bound_def)
    moreover from t(2,3) have "start_date t < bound y" by (simp add: bound_def)
    ultimately show "\<exists>t d p. get_task tasks y = Some t \<and> dependency_id t = Some d \<and> d \<in> S
        \<and> get_task tasks d = Some p \<and> bound y = bound d + duration_days p
        \<and> start_date t < bound y"
      using t(1) dt dyS p(1) by blast
  qed
  with assms(2) have "chain_below S bound tasks'" by (rule walk_chain_below)
  with r obtain t where "get_task tasks' r = Some t" "start_date t < bound r"
    unfolding chain_below_def by blast
  then show False by (simp add: bound_def)
qed

lemma advanced_same_start:
  "advanced t a \<Longrightarrow> advanced t b \<Longrightarrow> start_date a = start_date b \<Longrightarrow> a = b"
  by (simp add: advanced_def)

text \<open>
  A task the walk moved ends on the end of its predecessor, and that predecessor
  is the root or was moved itself.
\<close>

lemma walk_moved_tight:
  assumes "wf_db tasks" and "walk tasks r tasks' log" and "(y, True) \<in> set log"
  obtains t t' d p' where "get_task tasks y = Some t" and "get_task tasks' y = Some t'"
    and "start_date t < start_date t'" and "dep_of tasks y = Some d"
    and "d = r \<or> (d, True) \<in> set log" and "get_task tasks' d = Some p'"
    and "start_date t' = end_date p'"
proof -
  from assms(1) have d: "distinct (map task_id tasks)" by (rule wf_db_distinct)
  from assms(2) d have e: "evolves tasks tasks'" by (rule walk_evolves)
  from walk_moved_forward(1) [OF assms(2) d assms(3)] obtain t t' where
    t: "get_task tasks y = Some t" "get_task tasks' y = Some t'" "start_date t < start_date t'"
    by (auto simp: moved_forward_def)
  from walk_log_parent(1) [OF assms(2) d] assms(3) obtain dy where
    dy: "dep_of tasks y = Some dy" "dy = r \<or> (dy, True) \<in> set log" by fastforce
  from e dy(1) have dy': "dep_of tasks' y = Some dy" by (simp add: evolves_dep_of)
  with t(2) have dt': "dependency_id t' = Some dy" by (simp add: dep_of_def)
  from walk_moved_at_most_end(1) [OF assms(2) d assms(3)] t(2) dt' obtain p' where
    p': "get_task tasks' dy = Some p'" "start_date t' \<le> end_date p'"
    by (auto simp: at_most_end_def)
  from walk_followers_ok(1) [OF assms(2,1)] dy(2) have "followers_ok tasks' dy" by auto
  then have "dependency_ok tasks' y" using dy' by (rule followers_ok_dependency_ok)
  with t(2) dt' p'(1) have "end_date p' \<le> start_date t'" by (simp add: dependency_ok_def)
  with p'(2) have "start_date t' = end_date p'" by simp
  with t dy p'(1) that show ?thesis by blast
qed

lemma walk_determined_step:
  assumes wa: "wf_db ta" and wb: "wf_db tb" and same: "\<forall>k. get_task tb k = get_task ta k"
    and ra: "walk ta r ta' la" and rb: "walk tb r tb' lb"
    and y: "(y, True) \<in> set la"
    and pred: "\<forall>d. dep_of ta y = Some d \<longrightarrow> get_task tb' d = get_task ta' d"
  shows "get_task tb' y = get_task ta' y"
proof -
  from wa have da: "distinct (map task_id ta)" by (rule wf_db_distinct)
  from wb have db: "distinct (map task_id tb)" by (rule wf_db_distinct)
  from ra da have ea: "evolves ta ta'" by (rule walk_evolves)
  from rb db have eb: "evolves tb tb'" by (rule walk_evolves)
  from same have dep: "\<And>k. dep_of tb k = dep_of ta k" by (simp add: dep_of_def)
  from wa ra y obtain t t' d p' where t: "get_task ta y = Some t" "get_task ta' y = Some t'"
    "start_date t < start_date t'" "dep_of ta y = Some d" "d = r \<or> (d, True) \<in> set la"
    "get_task ta' d = Some p'" "start_date t' = end_date p'"
    by (rule walk_moved_tight)
  from pred t(4,6) have pb: "get_task tb' d = Some p'" by simp
  have active: "d = r \<or> (d, True) \<in> set lb"
  proof (cases "d = r")
    case False
    with t(5) have "(d, True) \<in> set la" by simp
    from walk_moved_forward(1) [OF ra da this] t(6) have "get_task ta d \<noteq> Some p'"
      by (auto simp: moved_forward_def)
    with same pb have "get_task tb' d \<noteq> get_task tb d" by simp
    with walk_changed_logged(1) [OF rb, of d] show ?thesis by auto
  qed simp
  from t(1) same have tb: "get_task tb y = Some t" by simp
  from evolves_get_task_Some [OF eb tb] obtain t2 where
    t2: "get_task tb' y = Some t2" "advanced t t2" by blast
  from t(4) eb have depb: "dep_of tb' y = Some d" by (simp add: evolves_dep_of dep)
  with t2(1) have dt2: "dependency_id t2 = Some d" by (simp add: dep_of_def)
  from walk_followers_ok(1) [OF rb wb] active have "followers_ok tb' d" by auto
  then have "dependency_ok tb' y" using depb by (rule followers_ok_dependency_ok)
  with t2(1) dt2 pb have lower: "end_date p' \<le> start_date t2" by (simp add: dependency_ok_def)
  with t(3,7) have "start_date t < start_date t2" by simp
  with tb t2(1) have "get_task tb' y \<noteq> get_task tb y" by auto
  with walk_changed_logged(1) [OF rb, of y] have "(y, True) \<in> set lb" by auto
  from walk_moved_at_most_end(1) [OF rb db this] t2(1) dt2 pb
  have "start_date t2 \<le> end_date p'" by (auto simp: at_most_end_def)
  with lower t(7) have "start_date t2 = start_date t'" by simp
  moreover from evolves_get_task_Some [OF ea t(1)] t(2) have "advanced t t'" by auto
  ultimately have "t2 = t'" using t2(2) by (simp add: advanced_same_start)
  with t2(1) t(2) show ?thesis by simp
qed

text \<open>
  Two walks from the same root over tables with the same rows end with the same
  rows: by induction along the chain of predecessors.
\<close>

lemma walk_determined:
  assumes wa: "wf_db ta" and wb: "wf_db tb" and same: "\<forall>k. get_task tb k = get_task ta k"
    and ra: "walk ta r ta' la" and rb: "walk tb r tb' lb"
  shows "rooted n ta y \<Longrightarrow> get_task tb' y = get_task ta' y"
proof (induction n arbitrary: y)
  case 0
  then show ?case by simp
next
  case (Suc n)
  from wa have da: "distinct (map task_id ta)" by (rule wf_db_distinct)
  from wb have db: "distinct (map task_id tb)" by (rule wf_db_distinct)
  from same have dep: "\<And>k. dep_of tb k = dep_of ta k" by (simp add: dep_of_def)
  have pa: "\<forall>d. dep_of ta y = Some d \<longrightarrow> get_task tb' d = get_task ta' d"
  proof (intro allI impI)
    fix d
    assume "dep_of ta y = Some d"
    with Suc.prems have "rooted n ta d" by (simp add: rooted_follower del: rooted.simps)
    then show "get_task tb' d = get_task ta' d" by (rule Suc.IH)
  qed
  then have pb: "\<forall>d. dep_of tb y = Some d \<longrightarrow> get_task ta' d = get_task tb' d"
    by (simp add: dep)
  from same have same': "\<forall>k. get_task ta k = get_task tb k" by simp
  consider "(y, True) \<in> set la" | "(y, True) \<in> set lb"
    | "(y, True) \<notin> set la" "(y, True) \<notin> set lb" by blast
  then show ?case
  proof cases
    case 1
    with wa wb same ra rb show ?thesis using pa by (rule walk_determined_step)
  next
    case 2
    with wb wa same' rb ra have "get_task ta' y = get_task tb' y"
      using pb by (rule walk_determined_step)
    then show ?thesis by simp
  next
    case 3
    with walk_changed_logged(1) [OF ra, of y] walk_changed_logged(1) [OF rb, of y] same
    show ?thesis by simp
  qed
qed

lemma permuted_lookup:
  assumes "mset tb = mset ta" and "distinct (map task_id ta)"
  shows "get_task tb k = get_task ta k"
proof -
  from assms(1) have s: "set tb = set ta" by (rule mset_eq_setD)
  from assms(1) have "mset (map task_id tb) = mset (map task_id ta)" by simp
  with assms(2) have db: "distinct (map task_id tb)" by (metis mset_eq_imp_distinct_iff)
  show ?thesis
  proof (cases "get_task ta k")
    case None
    then have "k \<notin> task_id ` set ta" by (simp add: get_task_None_iff)
    with s have "get_task tb k = None" by (simp add: get_task_None_iff)
    with None show ?thesis by simp
  next
    case (Some t)
    with get_task_mem [OF Some] get_task_id [OF Some] s db get_task_distinct [of tb t]
    show ?thesis by simp
  qed
qed

lemma permuted_forest:
  assumes "mset tb = mset ta" and "forest ta"
  shows "forest tb"
proof -
  from assms(2) have da: "distinct (map task_id ta)" by (simp add: forest_wf wf_db_distinct)
  from assms(1) have s: "set tb = set ta" by (rule mset_eq_setD)
  from assms(1) have m: "mset (map task_id tb) = mset (map task_id ta)" by simp
  with da have db: "distinct (map task_id tb)" by (metis mset_eq_imp_distinct_iff)
  from assms(1) have len: "length tb = length ta" by (rule mset_eq_length)
  have look: "\<And>k. get_task tb k = get_task ta k" using assms(1) da by (rule permuted_lookup)
  have r: "rooted n tb k = rooted n ta k" for n k
    by (induction n arbitrary: k) (simp_all add: look split: option.splits)
  from assms(2) s db len r show ?thesis by (auto simp: forest_def wf_db_def)
qed

text \<open>
  Adjusting a task that satisfies the dependency invariant does nothing, when the
  end date of its predecessor can be computed.
\<close>

lemma adjust_dependency_ok:
  assumes "dependency_ok tasks f" and "get_task tasks f = Some t"
    and "\<forall>d p. dependency_id t = Some d \<and> d \<noteq> 0 \<and> get_task tasks d = Some p \<longrightarrow> in_calendar p"
  shows "adjust_start_date_based_on_dependency tasks t = Inr (t, False)"
proof (cases "dependency_id t")
  case None
  then show ?thesis by (simp add: adjust_start_date_based_on_dependency_def)
next
  case (Some d)
  show ?thesis
  proof (cases "d = 0 \<or> get_task tasks d = None")
    case True
    with Some show ?thesis by (auto simp: adjust_start_date_based_on_dependency_def)
  next
    case False
    then obtain p where p: "d \<noteq> 0" "get_task tasks d = Some p" by auto
    with assms(3) Some have "in_calendar p" by blast
    moreover from assms(1,2) Some p(2) have "end_date p \<le> start_date t"
      by (simp add: dependency_ok_def)
    ultimately show ?thesis using adjust_present [OF Some p] by simp
  qed
qed

text \<open>
  A loop over followers that returned has computed the end date of their
  predecessor, unless there was no follower.
\<close>

lemma walk_followers_calendar:
  assumes "walk_followers tasks fs tasks' log" and "fs \<noteq> []"
    and "\<forall>f \<in> set fs. dep_of tasks f = Some x" and "get_task tasks x = Some p" and "x \<noteq> 0"
  shows "in_calendar p"
  using assms(1)
proof cases
  case finished
  with assms(2) show ?thesis by simp
next
  case (skipped f fs')
  with assms(3) show ?thesis by (auto simp: dep_of_def)
next
  case (unmoved f t t' fs' log')
  with assms(3) have "dependency_id t = Some x" by (auto simp: dep_of_def)
  with unmoved(4) show ?thesis using assms(5,4) by (rule adjust_unmoved(3))
next
  case (moved f t t' tasks1 log1 fs' log2)
  from assms(3) moved(1,3) have x: "dependency_id t = Some x" by (auto simp: dep_of_def)
  from moved(4) obtain d q where "dependency_id t = Some d" "get_task tasks d = Some q"
    "in_calendar q" by (rule adjust_moved)
  with x assms(4) show ?thesis by simp
qed

lemma cascade_followers_settled:
  assumes "\<forall>f \<in> set fs. dependency_ok tasks f"
    and "\<forall>f \<in> set fs. \<forall>t d p. get_task tasks f = Some t \<and> dependency_id t = Some d \<and> d \<noteq> 0
            \<and> get_task tasks d = Some p \<longrightarrow> in_calendar p"
  shows "cascade_followers n tasks fs
         = Inr (tasks, map (\<lambda>f. (f, False)) (filter (\<lambda>f. get_task tasks f \<noteq> None) fs))"
  using assms
proof (induction fs)
  case Nil
  show ?case by simp
next
  case (Cons f fs)
  show ?case
  proof (cases "get_task tasks f")
    case None
    with Cons show ?thesis by simp
  next
    case (Some t)
    from Cons.prems(1) have "dependency_ok tasks f" by simp
    moreover from Cons.prems(2) Some
    have "\<forall>d p. dependency_id t = Some d \<and> d \<noteq> 0 \<and> get_task tasks d = Some p \<longrightarrow> in_calendar p"
      by auto
    ultimately have a: "adjust_start_date_based_on_dependency tasks t = Inr (t, False)"
      using Some by (simp add: adjust_dependency_ok)
    from Cons.prems have "\<forall>f \<in> set fs. dependency_ok tasks f"
      and "\<forall>f \<in> set fs. \<forall>t d p. get_task tasks f = Some t \<and> dependency_id t = Some d
            \<and> d \<noteq> 0 \<and> get_task tasks d = Some p \<longrightarrow> in_calendar p"
      by auto
    then have "cascade_followers n tasks fs
         = Inr (tasks, map (\<lambda>f. (f, False)) (filter (\<lambda>f. get_task tasks f \<noteq> None) fs))"
      by (rule Cons.IH)
    with Some a show ?thesis by simp
  qed
qed

lemma cascade_updates_settled:
  assumes "distinct (map task_id tasks)" and "followers_ok tasks r"
    and "\<forall>p. get_task tasks r = Some p \<and> followers_of tasks r \<noteq> [] \<longrightarrow> in_calendar p"
  shows "\<exists>log. cascade_updates (Suc n) tasks r = Inr (tasks, log) \<and> (\<forall>e \<in> set log. \<not> snd e)"
proof (cases "get_task tasks r")
  case None
  then show ?thesis by simp
next
  case (Some t)
  then have i: "task_id t = r" by (rule get_task_id)
  let ?fs = "map task_id (followers_of tasks r)"
  from assms(1) have dep: "\<forall>f \<in> set ?fs. dep_of tasks f = Some r"
    using followers_dep_of [of tasks _ r] by blast
  with assms(2) have ok: "\<forall>f \<in> set ?fs. dependency_ok tasks f"
    using followers_ok_dependency_ok [of tasks r] by blast
  have cal: "\<forall>f \<in> set ?fs. \<forall>tf d p. get_task tasks f = Some tf \<and> dependency_id tf = Some d
      \<and> d \<noteq> 0 \<and> get_task tasks d = Some p \<longrightarrow> in_calendar p"
  proof (intro ballI allI impI)
    fix f tf d p
    assume f: "f \<in> set ?fs"
      and a: "get_task tasks f = Some tf \<and> dependency_id tf = Some d \<and> d \<noteq> 0
        \<and> get_task tasks d = Some p"
    from f dep have "dep_of tasks f = Some r" by blast
    with a have "d = r" by (simp add: dep_of_def)
    moreover from f have "followers_of tasks r \<noteq> []" by auto
    ultimately show "in_calendar p" using a assms(3) by blast
  qed
  from ok cal have "cascade_followers n tasks ?fs
         = Inr (tasks, map (\<lambda>f. (f, False)) (filter (\<lambda>f. get_task tasks f \<noteq> None) ?fs))"
    by (rule cascade_followers_settled)
  with Some i show ?thesis by auto
qed

text \<open>A walk that returned once returns again, with the same table and without a move.\<close>

lemma cascade_twice:
  assumes "wf_db tasks" and "cascade_updates n tasks r = Inr (tasks', log)"
  shows "\<exists>log2. cascade_updates n tasks' r = Inr (tasks', log2) \<and> (\<forall>e \<in> set log2. \<not> snd e)"
proof -
  from assms(2) obtain m where n: "n = Suc m" by (cases n) auto
  from assms(2) have w: "walk tasks r tasks' log" by (rule cascade_walk)
  from assms(1) have d: "distinct (map task_id tasks)" by (rule wf_db_distinct)
  from w d have e: "evolves tasks tasks'" by (rule walk_evolves)
  with d have d': "distinct (map task_id tasks')" by (simp add: evolves_distinct)
  from w assms(1) have ok: "followers_ok tasks' r" by (simp add: walk_followers_ok)
  from assms(1) w have root: "get_task tasks' r = get_task tasks r" by (rule walk_root_unchanged)
  have cal: "\<forall>p. get_task tasks' r = Some p \<and> followers_of tasks' r \<noteq> [] \<longrightarrow> in_calendar p"
  proof (intro allI impI)
    fix p
    assume a: "get_task tasks' r = Some p \<and> followers_of tasks' r \<noteq> []"
    with root have p: "get_task tasks r = Some p" by simp
    then have i: "task_id p = r" by (rule get_task_id)
    from assms(1) p have nz: "r \<noteq> 0" by (rule wf_db_nonzero)
    let ?fs = "map task_id (followers_of tasks r)"
    from a obtain f where "f \<in> set (map task_id (followers_of tasks' r))"
      by (cases "followers_of tasks' r") auto
    with followers_dep_of [OF d', of f r] have "dep_of tasks' f = Some r" by blast
    with e have "dep_of tasks f = Some r" by (simp add: evolves_dep_of)
    with followers_dep_of [OF d, of f r] have "f \<in> set ?fs" by blast
    then have ne: "?fs \<noteq> []" by auto
    from d have dep: "\<forall>f \<in> set ?fs. dep_of tasks f = Some r"
      using followers_dep_of [of tasks _ r] by blast
    from w p i have "walk_followers tasks ?fs tasks' log" by cases auto
    then show "in_calendar p" using ne dep p nz by (rule walk_followers_calendar)
  qed
  from d' ok cal show ?thesis unfolding n by (rule cascade_updates_settled)
qed

lemma permuted_dates_fit:
  assumes "mset tb = mset ta" and "distinct (map task_id ta)" and "dates_fit ta"
  shows "dates_fit tb"
proof -
  from assms(1) have s: "set tb = set ta" by (rule mset_eq_setD)
  from assms(1) have len: "length tb = length ta" by (rule mset_eq_length)
  have look: "\<And>k. get_task tb k = get_task ta k" using assms(1,2) by (rule permuted_lookup)
  have l: "latest_end n tb k = latest_end n ta k" for n k
    by (induction n arbitrary: k) (simp_all add: look split: option.splits)
  from assms(3) s len show ?thesis by (simp add: dates_fit_def l del: latest_end.simps)
qed

section \<open>Runs of the cascade that fail\<close>



section \<open>Properties of the cascade on forests\<close>

text \<open>
  Claim C5. On a forest whose dates fit the calendar the cascade from a root
  returns whenever more nested calls are allowed than there are rows. And on
  every forest, whenever the cascade returns, the cascade run again from the same
  root on the table it left returns that table unchanged, every application of
  the Adjustment Rule in the second run reporting \<open>False\<close>.
\<close>

theorem cascade_idempotent:
  assumes "forest tasks"
  shows "(dates_fit tasks \<and> length tasks < n \<longrightarrow>
            (\<exists>tasks1 log1. cascade_updates n tasks r = Inr (tasks1, log1)))
       \<and> (cascade_updates n tasks r = Inr (tasks', log) \<longrightarrow>
            (\<exists>log2. cascade_updates n tasks' r = Inr (tasks', log2)
               \<and> (\<forall>e \<in> set log2. \<not> snd e)))"
proof (intro conjI impI)
  assume "dates_fit tasks \<and> length tasks < n"
  with assms show "\<exists>tasks1 log1. cascade_updates n tasks r = Inr (tasks1, log1)"
    by (simp add: forest_cascade_returns)
next
  assume r: "cascade_updates n tasks r = Inr (tasks', log)"
  from assms have "wf_db tasks" by (rule forest_wf)
  then show "\<exists>log2. cascade_updates n tasks' r = Inr (tasks', log2) \<and> (\<forall>e \<in> set log2. \<not> snd e)"
    using r by (rule cascade_twice)
qed

theorem cascade_idempotent_witness:
  "forest chain_db \<and> dates_fit chain_db \<and> length chain_db < 5
   \<and> cascade_updates 5 chain_db 1 = Inr (settled_db, [(2, True), (3, True)])
   \<and> cascade_updates 5 settled_db 1 = Inr (settled_db, [(2, False)])"
proof -
  have f: "forest chain_db"
    by (simp add: forest_def wf_db_def example_defs get_task_def eval_nat_numeral)
  have c: "dates_fit chain_db"
    by (simp add: dates_fit_def example_defs get_task_def end_date_def date_min_def date_max_def)
  have l: "length chain_db < 5" by (simp add: chain_db_def)
  have a: "cascade_updates 5 chain_db 1 = Inr (settled_db, [(2, True), (3, True)])"
    by (simp add: example_defs eval_defs)
  have b: "cascade_updates 5 settled_db 1 = Inr (settled_db, [(2, False)])"
    by (simp add: example_defs eval_defs)
  from cascade_idempotent [OF f, where n = 5 and r = 1 and tasks' = settled_db
      and log = "[(2, True), (3, True)]"] f c l a b
  show ?thesis by simp
qed




text \<open>
  Claim C4, as the code has it. On a forest, when the cascade has applied the
  Adjustment Rule to a follower and the rule reported \<open>False\<close>, no task below
  that follower appears in the log of the cascade, and the row of every such task
  is the one it was before.
\<close>

theorem pruning_in_forest:
  assumes "forest tasks" and "cascade_updates n tasks r = Inr (tasks', log)"
    and "(f, False) \<in> set log" and "reachable tasks f g"
  shows "g \<notin> fst ` set log \<and> get_task tasks' g = get_task tasks g"
proof -
  from assms(2) have w: "walk tasks r tasks' log" by (rule cascade_walk)
  from assms(1) w assms(3,4) have n: "g \<notin> fst ` set log" by (rule walk_pruned)
  then have "(g, True) \<notin> set log" by force
  with w have "get_task tasks' g = get_task tasks g" by (rule walk_changed_logged)
  with n show ?thesis by simp
qed

theorem pruning_in_forest_witness:
  "forest branch_db
   \<and> cascade_updates 6 branch_db 1 = Inr (branch_done_db, [(2, True), (4, True), (3, False)])
   \<and> reachable branch_db 3 5
   \<and> 5 \<notin> fst ` set [(2::int, True), (4, True), (3, False)]
   \<and> get_task branch_done_db 5 = get_task branch_db 5"
proof -
  have f: "forest branch_db"
    by (simp add: forest_def wf_db_def example_defs get_task_def eval_nat_numeral)
  have c: "cascade_updates 6 branch_db 1 = Inr (branch_done_db, [(2, True), (4, True), (3, False)])"
    by (simp add: example_defs eval_defs)
  have m: "(3, False) \<in> set [(2::int, True), (4, True), (3, False)]" by simp
  have "dep_of branch_db 5 = Some 3" by (simp add: dep_of_def example_defs get_task_def)
  then have r: "reachable branch_db 3 5" by (rule reachable_direct)
  from pruning_in_forest [OF f c m r] f c r show ?thesis by simp
qed

text \<open>
  Claim C4 as stated fails when the table is not a forest. Tasks 1 and 2 depend
  on each other and last zero days; task 1 starts on day 5, task 2 on day 0. The
  cascade from task 1 moves task 2 to day 5, then examines task 1 as the follower
  of task 2 and does not move it: task 1 is examined and not moved, and task 2,
  which is a follower of task 1, has been visited and modified.
\<close>

theorem pruning_cycle_counterexample:
  "cascade_updates 5 (cycle_db 5 0 0 0) 1 = Inr (cycle_db 5 0 5 0, [(2, True), (1, False)])
   \<and> reachable (cycle_db 5 0 0 0) 1 2
   \<and> get_task (cycle_db 5 0 5 0) 2 \<noteq> get_task (cycle_db 5 0 0 0) 2"
proof -
  have c: "cascade_updates 5 (cycle_db 5 0 0 0) 1
      = Inr (cycle_db 5 0 5 0, [(2, True), (1, False)])"
    by (simp add: example_defs eval_defs)
  have "dep_of (cycle_db 5 0 0 0) 2 = Some 1" by (simp add: dep_of_def example_defs get_task_def)
  then have r: "reachable (cycle_db 5 0 0 0) 1 2" by (rule reachable_direct)
  have n: "get_task (cycle_db 5 0 5 0) 2 \<noteq> get_task (cycle_db 5 0 0 0) 2"
    by (simp add: example_defs get_task_def)
  from c r n show ?thesis by simp
qed

text \<open>
  Claim C8. The order in which a cascade step iterates over sibling followers is
  the order of the rows in the table, and every choice of sibling orders is the
  order of some permutation of the rows. On a forest whose dates fit the
  calendar, the cascade from a root over the table and over any permutation of it
  both return whenever more nested calls are allowed than there are rows. And on
  every forest, whenever both return, every id has the same row, hence the same
  start date, in the two results.
\<close>

theorem cascade_order_independent:
  assumes "forest tasks" and "mset tasks2 = mset tasks"
  shows "(dates_fit tasks \<and> length tasks < n \<longrightarrow>
            (\<exists>tasks1 log1. cascade_updates n tasks r = Inr (tasks1, log1))
            \<and> (\<exists>tasks1 log1. cascade_updates n tasks2 r = Inr (tasks1, log1)))
       \<and> (cascade_updates n tasks r = Inr (tasks', log)
            \<and> cascade_updates m tasks2 r = Inr (tasks2', log2) \<longrightarrow>
            (\<forall>y. get_task tasks2' y = get_task tasks' y))"
proof (intro conjI impI allI)
  assume "dates_fit tasks \<and> length tasks < n"
  with assms(1) show "\<exists>tasks1 log1. cascade_updates n tasks r = Inr (tasks1, log1)"
    by (simp add: forest_cascade_returns)
next
  assume l: "dates_fit tasks \<and> length tasks < n"
  from assms(2,1) have "forest tasks2" by (rule permuted_forest)
  moreover from assms(1) have "distinct (map task_id tasks)"
    by (simp add: forest_wf wf_db_distinct)
  with assms(2) l have "dates_fit tasks2" by (simp add: permuted_dates_fit)
  moreover from assms(2) l have "length tasks2 < n" using mset_eq_length [of tasks2 tasks] by simp
  ultimately show "\<exists>tasks1 log1. cascade_updates n tasks2 r = Inr (tasks1, log1)"
    by (rule forest_cascade_returns)
next
  fix y
  assume ab: "cascade_updates n tasks r = Inr (tasks', log)
      \<and> cascade_updates m tasks2 r = Inr (tasks2', log2)"
  then have wa: "walk tasks r tasks' log" and wb: "walk tasks2 r tasks2' log2"
    using cascade_walk(1) by blast+
  from assms(2,1) have f2: "forest tasks2" by (rule permuted_forest)
  from assms(1) have wf: "wf_db tasks" by (rule forest_wf)
  from f2 have wf2: "wf_db tasks2" by (rule forest_wf)
  from wf have d: "distinct (map task_id tasks)" by (rule wf_db_distinct)
  from wf2 have d2: "distinct (map task_id tasks2)" by (rule wf_db_distinct)
  have same: "\<forall>k. get_task tasks2 k = get_task tasks k"
    using permuted_lookup [OF assms(2) d] by blast
  show "get_task tasks2' y = get_task tasks' y"
  proof (cases "get_task tasks y")
    case None
    with same have "get_task tasks2 y = None" by simp
    with None evolves_get_task_None [OF walk_evolves(1) [OF wa d]]
      evolves_get_task_None [OF walk_evolves(1) [OF wb d2]]
    show ?thesis by simp
  next
    case (Some t)
    with assms(1) have "rooted (Suc (length tasks)) tasks y" by (rule forest_rooted)
    with wf wf2 same wa wb show ?thesis by (rule walk_determined)
  qed
qed

theorem cascade_order_independent_witness:
  "forest branch_db \<and> mset (rev branch_db) = mset branch_db \<and> dates_fit branch_db
   \<and> length branch_db < 6
   \<and> cascade_updates 6 branch_db 1 = Inr (branch_done_db, [(2, True), (4, True), (3, False)])
   \<and> cascade_updates 6 (rev branch_db) 1
       = Inr (rev branch_done_db, [(3, False), (2, True), (4, True)])
   \<and> get_task (rev branch_done_db) 4 = get_task branch_done_db 4"
proof -
  have f: "forest branch_db"
    by (simp add: forest_def wf_db_def example_defs get_task_def eval_nat_numeral)
  have p: "mset (rev branch_db) = mset branch_db" by simp
  have t: "dates_fit branch_db"
    by (simp add: dates_fit_def example_defs get_task_def end_date_def date_min_def date_max_def)
  have l: "length branch_db < 6" by (simp add: branch_db_def)
  have a: "cascade_updates 6 branch_db 1
      = Inr (branch_done_db, [(2, True), (4, True), (3, False)])"
    by (simp add: example_defs eval_defs)
  have b: "cascade_updates 6 (rev branch_db) 1
      = Inr (rev branch_done_db, [(3, False), (2, True), (4, True)])"
    by (simp add: example_defs eval_defs)
  from cascade_order_independent [OF f p, where n = 6 and m = 6 and r = 1
      and tasks' = branch_done_db and log = "[(2, True), (4, True), (3, False)]"
      and tasks2' = "rev branch_done_db" and ?log2.0 = "[(3, False), (2, True), (4, True)]"] a b
  have "\<forall>y. get_task (rev branch_done_db) y = get_task branch_done_db y" by blast
  then have "get_task (rev branch_done_db) 4 = get_task branch_done_db 4" by blast
  with f p t l a b show ?thesis by simp
qed

section \<open>The root of a cascade\<close>



text \<open>
  Claim C10 as stated fails on a dependency cycle. With both tasks of the cycle
  starting on day 0 and lasting one day, the cascade from task 1 moves task 2,
  then, as the follower of task 2, task 1 itself; allowed three nested calls, it
  ends in \<^verbatim>\<open>RecursionError\<close> with its root moved from day 0 to day 2.
\<close>

theorem cascade_root_counterexample:
  "cascade_updates 3 (cycle_db 0 1 0 1) 1 = Inl (RecursionError, cycle_db 2 1 3 1)
   \<and> get_task (cycle_db 0 1 0 1) 1 = Some (mk_task 1 0 1 (Some 2))
   \<and> get_task (cycle_db 2 1 3 1) 1 = Some (mk_task 1 2 1 (Some 2))"
  by (simp add: example_defs eval_defs)

end
